theory Spec2Isabelle
  imports Main "HOL-Library.Word" "HOL-Library.Sublist" "HOL-Library.AList" "HOL-Library.Multiset"
begin

section \<open>JavaScript strings\<close>

text \<open>
  A JavaScript string is a sequence of UTF-16 code units, and the regular expressions of
  \<^verbatim>\<open>src/lib/utils.ts\<close> (no \<^verbatim>\<open>u\<close> flag) work on code units. A string is therefore a
  list of 16-bit words. \<open>js\<close> embeds an ASCII literal.
\<close>

type_synonym code_unit = "16 word"
type_synonym jsstring = "code_unit list"

definition js :: "string \<Rightarrow> jsstring" where
  "js s = map of_char s"

definition LF :: code_unit where
  "LF = 0x0A"

definition tilde :: code_unit where
  "tilde = 0x7E"

text \<open>
  The code units that \<^verbatim>\<open>String.prototype.trim\<close> strips and that \<^verbatim>\<open>\s\<close> matches:
  ECMAScript's WhiteSpace and LineTerminator productions (TAB, LF, VT, FF, CR, SP, NBSP,
  the Unicode space separators, LS, PS and the byte order mark).
\<close>

definition is_ws :: "code_unit \<Rightarrow> bool" where
  "is_ws c \<longleftrightarrow>
     c = 0x09 \<or> c = 0x0A \<or> c = 0x0B \<or> c = 0x0C \<or> c = 0x0D \<or> c = 0x20 \<or> c = 0xA0 \<or>
     c = 0x1680 \<or> (0x2000 \<le> c \<and> c \<le> 0x200A) \<or> c = 0x2028 \<or> c = 0x2029 \<or>
     c = 0x202F \<or> c = 0x205F \<or> c = 0x3000 \<or> c = 0xFEFF"

definition trim :: "jsstring \<Rightarrow> jsstring" where
  "trim s = rev (dropWhile is_ws (rev (dropWhile is_ws s)))"

text \<open>\<open>occurs_in pat s\<close> is \<^verbatim>\<open>s.includes(pat)\<close>: \<open>pat\<close> is a contiguous part of \<open>s\<close>.\<close>

fun occurs_in :: "'a list \<Rightarrow> 'a list \<Rightarrow> bool" where
  "occurs_in pat [] \<longleftrightarrow> pat = []"
| "occurs_in pat (c # cs) \<longleftrightarrow> prefix pat (c # cs) \<or> occurs_in pat cs"

text \<open>
  \<open>split_first pat s\<close> cuts \<open>s\<close> at the first occurrence of \<open>pat\<close>: the text before it and
  the text after it. This is what a lazy \<^verbatim>\<open>[\s\S]*?\<close> followed by the literal \<open>pat\<close> matches
  when nothing follows the literal in the pattern: the shortest run after which \<open>pat\<close>
  stands.
\<close>

fun split_first :: "'a list \<Rightarrow> 'a list \<Rightarrow> ('a list \<times> 'a list) option" where
  "split_first pat [] = (if pat = [] then Some ([], []) else None)"
| "split_first pat (c # cs) =
     (if prefix pat (c # cs) then Some ([], drop (length pat) (c # cs))
      else map_option (\<lambda>(before, after). (c # before, after)) (split_first pat cs))"

section \<open>The block parser: \<^verbatim>\<open>parseDocumentBlocks\<close>\<close>

text \<open>
  \<^verbatim>\<open>const docRegex = /~~~doc:([^\n]+)\n([\s\S]*?)~~~/g;\<close>

  \<open>doc_match_here s\<close> is one attempt of the pattern anchored at the start of \<open>s\<close>; it returns
  capture 1, capture 2 and the text after the match.
  \<^item> \<^verbatim>\<open>~~~doc:\<close> must stand at the start;
  \<^item> \<^verbatim>\<open>([^\n]+)\n\<close>: the class excludes only LF and the quantifier is greedy, so capture 1
    is the whole run up to the next LF; giving a character back never helps, since the
    character given back is not an LF. The run must not be empty and an LF must follow;
  \<^item> \<^verbatim>\<open>([\s\S]*?)~~~\<close>: capture 2 is the text up to the first \<^verbatim>\<open>~~~\<close> after that LF.
\<close>

definition doc_open :: jsstring where
  "doc_open = js ''~~~doc:''"

definition fence :: jsstring where
  "fence = js ''~~~''"

definition doc_match_here :: "jsstring \<Rightarrow> (jsstring \<times> jsstring \<times> jsstring) option" where
  "doc_match_here s =
     (if prefix doc_open s then
        (let r = drop (length doc_open) s;
             label = takeWhile (\<lambda>c. c \<noteq> LF) r
         in if label = [] then None
            else (case dropWhile (\<lambda>c. c \<noteq> LF) r of
                    [] \<Rightarrow> None
                  | _ # body \<Rightarrow>
                      (case split_first fence body of
                         None \<Rightarrow> None
                       | Some (content, rest) \<Rightarrow> Some (label, content, rest))))
      else None)"

lemma split_first_shorter:
  "split_first pat s = Some (b, a) \<Longrightarrow> length a \<le> length s"
proof (induction s arbitrary: b)
  case Nil
  then show ?case by (simp split: if_splits)
next
  case (Cons c cs)
  show ?case
  proof (cases "prefix pat (c # cs)")
    case True
    with Cons.prems show ?thesis by auto
  next
    case False
    with Cons.prems obtain b' where "split_first pat cs = Some (b', a)"
      by (auto split: prod.splits)
    from Cons.IH [OF this] show ?thesis by simp
  qed
qed

lemma doc_match_here_shorter:
  assumes "doc_match_here s = Some (l, ct, rest)"
  shows "length rest < length s"
proof -
  let ?r = "drop (length doc_open) s"
  from assms have p: "prefix doc_open s"
    by (simp add: doc_match_here_def split: if_splits)
  from assms p obtain x body where
    d: "dropWhile (\<lambda>c. c \<noteq> LF) ?r = x # body" and
    sp: "split_first fence body = Some (ct, rest)"
    by (auto simp: doc_match_here_def Let_def split: if_splits list.splits option.splits)
  have "length rest \<le> length body"
    using split_first_shorter [OF sp] .
  also have "length body < length (dropWhile (\<lambda>c. c \<noteq> LF) ?r)"
    by (simp add: d)
  also have "\<dots> \<le> length ?r"
    by (rule length_dropWhile_le)
  also have "\<dots> \<le> length s"
    by simp
  finally show ?thesis .
qed

text \<open>
  The loop \<^verbatim>\<open>while ((match = docRegex.exec(text)) !== null)\<close>: with the \<^verbatim>\<open>g\<close> flag each
  \<^verbatim>\<open>exec\<close> searches from \<^verbatim>\<open>lastIndex\<close>, trying each start position from left to right, and
  leaves \<^verbatim>\<open>lastIndex\<close> at the end of the match. \<open>exec_all\<close> returns the captures of the
  successive matches.
\<close>

function exec_all :: "jsstring \<Rightarrow> (jsstring \<times> jsstring) list" where
  "exec_all [] = []"
| "exec_all (c # cs) =
     (case doc_match_here (c # cs) of
        Some (l, ct, rest) \<Rightarrow> (l, ct) # exec_all rest
      | None \<Rightarrow> exec_all cs)"
  by pat_completeness auto
termination
  by (relation "measure length") (auto dest: doc_match_here_shorter)

text \<open>
  \<^verbatim>\<open>text.replace(docRegex, "")\<close> with a global pattern restarts at index 0 and removes the
  same successive matches, keeping the code units between them.
\<close>

function replace_all :: "jsstring \<Rightarrow> jsstring" where
  "replace_all [] = []"
| "replace_all (c # cs) =
     (case doc_match_here (c # cs) of
        Some (l, ct, rest) \<Rightarrow> replace_all rest
      | None \<Rightarrow> c # replace_all cs)"
  by pat_completeness auto
termination
  by (relation "measure length") (auto dest: doc_match_here_shorter)

section \<open>JavaScript objects used as dictionaries\<close>

text \<open>
  \<^verbatim>\<open>Record<string, string>\<close> values are plain objects created by \<^verbatim>\<open>{}\<close> or by a spread.
  The model keeps the own enumerable properties as an association list in creation
  order.

  \<^verbatim>\<open>obj[k] = v\<close> (ECMAScript OrdinarySet): an own property is overwritten in place; a new
  key is appended. The one inherited accessor of \<^verbatim>\<open>Object.prototype\<close> is \<^verbatim>\<open>__proto__\<close>: when
  the object has no own property of that name the assignment calls the inherited setter,
  which ignores a value that is neither an object nor \<^verbatim>\<open>null\<close> (ECMA-262,
  \<^verbatim>\<open>set Object.prototype.__proto__\<close>, step 2), so assigning a string creates no property.
\<close>

type_synonym js_record = "(jsstring \<times> jsstring) list"

definition proto_key :: jsstring where
  "proto_key = js ''__proto__''"

definition js_assign :: "js_record \<Rightarrow> jsstring \<Rightarrow> jsstring \<Rightarrow> js_record" where
  "js_assign obj k v =
     (if k = proto_key \<and> map_of obj k = None then obj else AList.update k v obj)"

text \<open>
  \<^verbatim>\<open>Object.keys\<close>, \<^verbatim>\<open>Object.entries\<close>, \<^verbatim>\<open>Object.values\<close> and the spread \<^verbatim>\<open>{...obj}\<close> visit the
  own properties in the order of OrdinaryOwnPropertyKeys: the keys that are array indices
  (canonical decimal numerals below \<open>2\<^sup>3\<^sup>2 - 1\<close>) in ascending numeric order, then the other
  keys in creation order.
\<close>

definition is_digit :: "code_unit \<Rightarrow> bool" where
  "is_digit c \<longleftrightarrow> 0x30 \<le> c \<and> c \<le> 0x39"

definition array_index :: "jsstring \<Rightarrow> int option" where
  "array_index k =
     (if k = [] then None
      else if \<not> list_all is_digit k then None
      else if hd k = 0x30 \<and> length k \<noteq> 1 then None
      else (let n = foldl (\<lambda>a c. 10 * a + (uint c - 48)) 0 k
            in if n < 4294967295 then Some n else None))"

definition index_rank :: "jsstring \<times> 'v \<Rightarrow> int" where
  "index_rank p = (case array_index (fst p) of Some n \<Rightarrow> n | None \<Rightarrow> 0)"

definition own_entries :: "(jsstring \<times> 'v) list \<Rightarrow> (jsstring \<times> 'v) list" where
  "own_entries obj =
     sort_key index_rank (filter (\<lambda>p. array_index (fst p) \<noteq> None) obj)
     @ filter (\<lambda>p. array_index (fst p) = None) obj"

definition own_keys :: "(jsstring \<times> 'v) list \<Rightarrow> jsstring list" where
  "own_keys obj = map fst (own_entries obj)"

text \<open>
  \<^verbatim>\<open>
  export function parseDocumentBlocks(text: string) {
    const documents: Record<string, string> = {};
    const docRegex = /~~~doc:([^\n]+)\n([\s\S]*?)~~~/g;
    let match;
    while ((match = docRegex.exec(text)) !== null) {
      const docType = match[1].trim();
      const content = match[2].trim();
      documents[docType] = content;
    }
    const cleanText = text.replace(docRegex, "").trim();
    return { cleanText, documents };
  }
  \<close>
\<close>

record parsed =
  cleanText :: jsstring
  documents :: js_record

definition parseDocumentBlocks :: "jsstring \<Rightarrow> parsed" where
  "parseDocumentBlocks text =
     \<lparr>cleanText = trim (replace_all text),
      documents = foldl (\<lambda>docs (l, ct). js_assign docs (trim l) (trim ct)) [] (exec_all text)\<rparr>"

section \<open>Sessions and their storage (\<^verbatim>\<open>lib/storage\<close>)\<close>

text \<open>
  The interfaces \<^verbatim>\<open>ChatMessage\<close>, \<^verbatim>\<open>DocVersion\<close> and \<^verbatim>\<open>Session\<close>. The field \<^verbatim>\<open>id\<close> is written
  \<open>id'\<close>. Timestamps are the integers \<^verbatim>\<open>Date.now()\<close> returns; every call of \<^verbatim>\<open>Date.now()\<close>
  and of \<^verbatim>\<open>crypto.randomUUID()\<close> is a parameter of the function that makes it.
\<close>

datatype role = User | Assistant

record ChatMessage =
  id' :: jsstring
  role :: role
  content :: jsstring
  timestamp :: int

datatype source = Generated | Edited | Harmonized

record DocVersion =
  docType :: jsstring
  content :: jsstring
  timestamp :: int
  source :: source

record Session =
  id' :: jsstring
  name :: jsstring
  instructionKey :: jsstring
  createdAt :: int
  updatedAt :: int
  messages :: "ChatMessage list"
  documents :: js_record
  documentHistory :: "DocVersion list"

datatype js_error = SyntaxError | TypeError

definition MAX_VERSIONS_PER_DOC :: nat where
  "MAX_VERSIONS_PER_DOC = 3"

definition MAX_MESSAGES :: nat where
  "MAX_MESSAGES = 200"

text \<open>
  \<^verbatim>\<open>
  const byDocType: Record<string, DocVersion[]> = {};
  for (const v of trimmed.documentHistory) {
    (byDocType[v.docType] ??= []).push(v);
  }
  \<close>
  \<^verbatim>\<open>byDocType[k]\<close> reads an own property, else an inherited one. For a key that
  \<^verbatim>\<open>Object.prototype\<close> defines the value read is a function (or, for \<^verbatim>\<open>__proto__\<close>, the
  prototype object): it is not nullish, so \<^verbatim>\<open>??=\<close> assigns nothing, and it has no \<^verbatim>\<open>push\<close>
  method, so the call raises a TypeError. Otherwise an absent key reads \<^verbatim>\<open>undefined\<close> and
  a fresh array is stored under it.
\<close>

definition object_prototype_keys :: "jsstring list" where
  "object_prototype_keys =
     map js [''constructor'', ''__defineGetter__'', ''__defineSetter__'', ''hasOwnProperty'',
       ''__lookupGetter__'', ''__lookupSetter__'', ''isPrototypeOf'', ''propertyIsEnumerable'',
       ''toString'', ''valueOf'', ''__proto__'', ''toLocaleString'']"

definition push_version ::
  "(jsstring \<times> DocVersion list) list \<Rightarrow> DocVersion \<Rightarrow> js_error + (jsstring \<times> DocVersion list) list"
where
  "push_version byDocType v =
     (case map_of byDocType (docType v) of
        Some versions \<Rightarrow> Inr (AList.update (docType v) (versions @ [v]) byDocType)
      | None \<Rightarrow>
          if docType v \<in> set object_prototype_keys then Inl TypeError
          else Inr (byDocType @ [(docType v, [v])]))"

fun group_versions ::
  "(jsstring \<times> DocVersion list) list \<Rightarrow> DocVersion list \<Rightarrow> js_error + (jsstring \<times> DocVersion list) list"
where
  "group_versions byDocType [] = Inr byDocType"
| "group_versions byDocType (v # vs) =
     (case push_version byDocType v of
        Inl e \<Rightarrow> Inl e
      | Inr byDocType' \<Rightarrow> group_versions byDocType' vs)"

text \<open>
  \<^verbatim>\<open>versions.sort((a, b) => b.timestamp - a.timestamp)\<close> and
  \<^verbatim>\<open>kept.sort((a, b) => a.timestamp - b.timestamp)\<close>: \<^verbatim>\<open>Array.prototype.sort\<close> is stable, as
  \<open>sort_key\<close> is.
\<close>

definition sort_newest_first :: "DocVersion list \<Rightarrow> DocVersion list" where
  "sort_newest_first versions = sort_key (\<lambda>v. - DocVersion.timestamp v) versions"

definition sort_oldest_first :: "DocVersion list \<Rightarrow> DocVersion list" where
  "sort_oldest_first versions = sort_key DocVersion.timestamp versions"

text \<open>
  \<^verbatim>\<open>
  function trimSession(session: Session): Session {
    const trimmed = { ...session };
    if (trimmed.messages.length > MAX_MESSAGES) {
      trimmed.messages = trimmed.messages.slice(-MAX_MESSAGES);
    }
    if (trimmed.documentHistory && trimmed.documentHistory.length > 0) {
      const byDocType: Record<string, DocVersion[]> = {};
      for (const v of trimmed.documentHistory) { (byDocType[v.docType] ??= []).push(v); }
      const kept: DocVersion[] = [];
      for (const versions of Object.values(byDocType)) {
        versions.sort((a, b) => b.timestamp - a.timestamp);
        kept.push(...versions.slice(0, MAX_VERSIONS_PER_DOC));
      }
      trimmed.documentHistory = kept.sort((a, b) => a.timestamp - b.timestamp);
    }
    return trimmed;
  }
  \<close>
  The function works on a shallow copy and on fresh arrays: the session passed in is not
  changed, which the model has by being a function. An array is truthy, so of the guard
  only the length test remains.
\<close>

definition trim_messages :: "ChatMessage list \<Rightarrow> ChatMessage list" where
  "trim_messages ms =
     (if length ms > MAX_MESSAGES then drop (length ms - MAX_MESSAGES) ms else ms)"

definition keep_recent :: "(jsstring \<times> DocVersion list) list \<Rightarrow> DocVersion list" where
  "keep_recent byDocType =
     concat (map (\<lambda>versions. take MAX_VERSIONS_PER_DOC (sort_newest_first versions))
                 (map snd (own_entries byDocType)))"

definition trimSession :: "Session \<Rightarrow> js_error + Session" where
  "trimSession session =
     (let trimmed = session\<lparr>messages := trim_messages (messages session)\<rparr>
      in if documentHistory trimmed = [] then Inr trimmed
         else (case group_versions [] (documentHistory trimmed) of
                 Inl e \<Rightarrow> Inl e
               | Inr byDocType \<Rightarrow>
                   Inr (trimmed\<lparr>documentHistory := sort_oldest_first (keep_recent byDocType)\<rparr>)))"

text \<open>
  \<^verbatim>\<open>
  export async function saveSession(session: Session): Promise<void> {
    if (typeof window === "undefined") return;
    const trimmed = trimSession(session);
    const db = await getDB();
    await db.put(STORE, trimmed);
  }
  \<close>
  The object store is keyed by \<^verbatim>\<open>id\<close>; \<^verbatim>\<open>put\<close> inserts or replaces. The first argument of
  the model says whether \<^verbatim>\<open>window\<close> is defined. An exception of \<^verbatim>\<open>trimSession\<close> rejects the
  promise and nothing is stored. Failures of IndexedDB itself are outside the model.
\<close>

type_synonym store = "(jsstring \<times> Session) list"

definition saveSession :: "bool \<Rightarrow> Session \<Rightarrow> store \<Rightarrow> js_error + store" where
  "saveSession has_window session db =
     (if \<not> has_window then Inr db
      else (case trimSession session of
              Inl e \<Rightarrow> Inl e
            | Inr trimmed \<Rightarrow> Inr (AList.update (Session.id' trimmed) trimmed db)))"

section \<open>The verifier's types (\<^verbatim>\<open>VerifierPanel\<close>)\<close>

text \<open>The fields \<^verbatim>\<open>id\<close>, \<^verbatim>\<open>type\<close> and \<^verbatim>\<open>fix\<close> of \<^verbatim>\<open>VerifierIssue\<close> are written with a prime.\<close>

datatype severity = Critical | Warning | Info

record VerifierIssue =
  id' :: jsstring
  severity :: severity
  type' :: jsstring
  title :: jsstring
  description :: jsstring
  affectedDocs :: "jsstring list"
  evidence :: "(jsstring \<times> jsstring) list"
  fix' :: jsstring
  targetDoc :: jsstring

datatype VerifierPhase = Idle | Verifying | Ready | Harmonizing | Done

record VerifierState =
  phase :: VerifierPhase
  issues :: "VerifierIssue list"
  summary :: jsstring
  dismissed :: "jsstring list"
  applied :: "jsstring list"
  rawReport :: jsstring

definition INITIAL_VERIFIER_STATE :: VerifierState where
  "INITIAL_VERIFIER_STATE =
     \<lparr>phase = Idle, issues = [], summary = [], dismissed = [], applied = [], rawReport = []\<rparr>"

subsection \<open>\<^verbatim>\<open>parseIssuesFromResponse\<close>\<close>

text \<open>
  \<^verbatim>\<open>text.match(/~~~issues\s*\n([\s\S]*?)~~~/)\<close>: the first match from the left. At one start
  position, after the literal \<^verbatim>\<open>~~~issues\<close>, the greedy \<^verbatim>\<open>\s*\<close> first takes the whole run of
  white space and then gives code units back one at a time; \<open>issues_after j r\<close> is the rest
  of the pattern when \<^verbatim>\<open>\s*\<close> has taken \<open>j\<close> code units of \<open>r\<close>: an LF, then the text up to the
  next \<^verbatim>\<open>~~~\<close>. \<open>issues_backtrack j r\<close> tries \<open>j\<close>, then \<open>j - 1\<close>, down to \<open>0\<close>.
\<close>

definition issues_open :: jsstring where
  "issues_open = js ''~~~issues''"

definition issues_after :: "nat \<Rightarrow> jsstring \<Rightarrow> (jsstring \<times> jsstring) option" where
  "issues_after j r =
     (case drop j r of
        [] \<Rightarrow> None
      | c # body \<Rightarrow> if c = LF then split_first fence body else None)"

fun issues_backtrack :: "nat \<Rightarrow> jsstring \<Rightarrow> (jsstring \<times> jsstring) option" where
  "issues_backtrack 0 r = issues_after 0 r"
| "issues_backtrack (Suc j) r =
     (case issues_after (Suc j) r of
        Some m \<Rightarrow> Some m
      | None \<Rightarrow> issues_backtrack j r)"

definition issues_match_here :: "jsstring \<Rightarrow> (jsstring \<times> jsstring) option" where
  "issues_match_here s =
     (if prefix issues_open s then
        (let r = drop (length issues_open) s
         in issues_backtrack (length (takeWhile is_ws r)) r)
      else None)"

fun issues_match :: "jsstring \<Rightarrow> jsstring option" where
  "issues_match [] = None"
| "issues_match (c # cs) =
     (case issues_match_here (c # cs) of
        Some (interior, rest) \<Rightarrow> Some interior
      | None \<Rightarrow> issues_match cs)"

text \<open>
  \<^verbatim>\<open>
  function parseIssuesFromResponse(text: string): VerifierIssue[] {
    const match = text.match(/~~~issues\s*\n([\s\S]*?)~~~/);
    if (!match) return [];
    try {
      return JSON.parse(match[1]);
    } catch {
      return [];
    }
  }
  \<close>
  \<^verbatim>\<open>JSON.parse\<close> belongs to the platform. It is a parameter of the model: it returns the
  parsed value, which the function's return type takes to be an issue list, or raises.
  The result of the model is a sum, so that an exception leaving the function would be a
  value \<open>Inl\<close>.
\<close>

definition parseIssuesFromResponse ::
  "(jsstring \<Rightarrow> js_error + VerifierIssue list) \<Rightarrow> jsstring \<Rightarrow> js_error + VerifierIssue list"
where
  "parseIssuesFromResponse JSON_parse text =
     (case issues_match text of
        None \<Rightarrow> Inr []
      | Some interior \<Rightarrow>
          (case JSON_parse interior of
             Inl e \<Rightarrow> Inr []
           | Inr parsed_value \<Rightarrow> Inr parsed_value))"

section \<open>The session page (\<^verbatim>\<open>app/session/[id]/page.tsx\<close>)\<close>

text \<open>
  The state the handlers work on: the React state of the page (\<^verbatim>\<open>session\<close>, \<^verbatim>\<open>activeDoc\<close>,
  \<^verbatim>\<open>isStreaming\<close>, \<^verbatim>\<open>verifierState\<close>), the chat panel's \<^verbatim>\<open>streamingContent\<close>, the object store
  and the pending session of the storage module, and the requests sent to \<^verbatim>\<open>/api/verify\<close>.
  The event loop runs one handler at a time; a state update is applied where it is
  requested.
\<close>

record harmonize_request =
  req_documents :: js_record
  mode :: jsstring
  report :: jsstring

record world =
  session :: "Session option"
  activeDoc :: "jsstring option"
  isStreaming :: bool
  streamingContent :: jsstring
  verifierState :: VerifierState
  db :: store
  pendingSession :: "Session option"
  sent :: "harmonize_request list"

text \<open>\<^verbatim>\<open>void saveSession(updated)\<close> in a browser: a rejection is dropped.\<close>

definition void_saveSession :: "Session \<Rightarrow> world \<Rightarrow> world" where
  "void_saveSession updated w =
     (case saveSession True updated (db w) of
        Inl e \<Rightarrow> w
      | Inr db' \<Rightarrow> w\<lparr>db := db'\<rparr>)"

text \<open>
  \<^verbatim>\<open>
  const handleMessagesUpdate = useCallback((messages: ChatMessage[]) => {
    setSession((prev) => {
      if (!prev) return prev;
      const updated = { ...prev, messages, updatedAt: Date.now() };
      debouncedSaveSession(updated);
      return updated;
    });
  }, []);
  \<close>
  \<^verbatim>\<open>debouncedSaveSession\<close> replaces the pending session; the timer that later saves it is
  not part of the model.
\<close>

definition handleMessagesUpdate :: "ChatMessage list \<Rightarrow> int \<Rightarrow> world \<Rightarrow> world" where
  "handleMessagesUpdate new_messages now w =
     (case session w of
        None \<Rightarrow> w
      | Some prev \<Rightarrow>
          (let updated = prev\<lparr>messages := new_messages, updatedAt := now\<rparr>
           in w\<lparr>session := Some updated, pendingSession := Some updated\<rparr>))"

text \<open>
  \<^verbatim>\<open>
  const handleDocumentsUpdate = useCallback((newDocs: Record<string, string>) => {
    setSession((prev) => {
      if (!prev) return prev;
      const mergedDocs = { ...prev.documents };
      for (const [type, content] of Object.entries(newDocs)) {
        mergedDocs[type] = content;
      }
      const updated = { ...prev, documents: mergedDocs, updatedAt: Date.now() };
      void saveSession(updated);
      return updated;
    });
    const newDocType = Object.keys(newDocs)[0];
    if (newDocType) setActiveDoc(newDocType);
  }, []);
  \<close>
  The spread copies the own properties in enumeration order. An empty key is falsy.
\<close>

definition mergeDocs :: "js_record \<Rightarrow> js_record \<Rightarrow> js_record" where
  "mergeDocs prevDocs newDocs =
     foldl (\<lambda>mergedDocs (ty, ct). js_assign mergedDocs ty ct) (own_entries prevDocs)
           (own_entries newDocs)"

definition handleDocumentsUpdate :: "js_record \<Rightarrow> int \<Rightarrow> world \<Rightarrow> world" where
  "handleDocumentsUpdate newDocs now w =
     (let w1 = (case session w of
                  None \<Rightarrow> w
                | Some prev \<Rightarrow>
                    (let updated = prev\<lparr>documents := mergeDocs (Session.documents prev) newDocs,
                                         updatedAt := now\<rparr>
                     in void_saveSession updated (w\<lparr>session := Some updated\<rparr>)))
      in (case own_keys newDocs of
            [] \<Rightarrow> w1
          | newDocType # others \<Rightarrow>
              if newDocType = [] then w1 else w1\<lparr>activeDoc := Some newDocType\<rparr>))"

text \<open>
  \<^verbatim>\<open>
  const handleSnapshotVersions = useCallback(
    (docs: Record<string, string>, source: DocVersion["source"]) => {
      setSession((prev) => {
        if (!prev) return prev;
        const now = Date.now();
        const newVersions: DocVersion[] = Object.entries(docs).map(
          ([docType, content]) => ({ docType, content, timestamp: now, source }));
        const updated = {
          ...prev,
          documentHistory: [...(prev.documentHistory || []), ...newVersions],
          updatedAt: now,
        };
        void saveSession(updated);
        return updated;
      });
    }, []);
  \<close>
\<close>

definition newVersions :: "js_record \<Rightarrow> source \<Rightarrow> int \<Rightarrow> DocVersion list" where
  "newVersions docs src now =
     map (\<lambda>(dt, ct). \<lparr>docType = dt, DocVersion.content = ct, DocVersion.timestamp = now,
                       source = src\<rparr>)
         (own_entries docs)"

definition handleSnapshotVersions :: "js_record \<Rightarrow> source \<Rightarrow> int \<Rightarrow> world \<Rightarrow> world" where
  "handleSnapshotVersions docs src now w =
     (case session w of
        None \<Rightarrow> w
      | Some prev \<Rightarrow>
          (let updated = prev\<lparr>documentHistory := documentHistory prev @ newVersions docs src now,
                               updatedAt := now\<rparr>
           in void_saveSession updated (w\<lparr>session := Some updated\<rparr>)))"

section \<open>Apply all fixes (\<^verbatim>\<open>VerifierPanel\<close>)\<close>

text \<open>
  \<^verbatim>\<open>
  const remaining = issues.filter(
    (i) => !dismissed.has(i.id) && !applied.has(i.id) && i.severity !== "info");
  \<close>
  with \<^verbatim>\<open>dismissed\<close> and \<^verbatim>\<open>applied\<close> the sets of the ids in the verifier state.
\<close>

definition remaining :: "VerifierState \<Rightarrow> VerifierIssue list" where
  "remaining vs =
     filter (\<lambda>i. VerifierIssue.id' i \<notin> set (dismissed vs)
                 \<and> VerifierIssue.id' i \<notin> set (applied vs)
                 \<and> severity i \<noteq> Info)
            (issues vs)"

definition severity_text :: "severity \<Rightarrow> jsstring" where
  "severity_text sv =
     (case sv of Critical \<Rightarrow> js ''critical'' | Warning \<Rightarrow> js ''warning'' | Info \<Rightarrow> js ''info'')"

text \<open>
  The template
  \<^verbatim>\<open>`- ${i.id} (${i.severity}): ${i.title}\n  Target: ${i.targetDoc}\n  Fix: ${i.fix}`\<close>
  and \<^verbatim>\<open>Array.prototype.join\<close>.
\<close>

definition issue_line :: "VerifierIssue \<Rightarrow> jsstring" where
  "issue_line i =
     js ''- '' @ VerifierIssue.id' i @ js '' ('' @ severity_text (severity i) @ js ''): ''
     @ title i @ js ''\<newline>  Target: '' @ targetDoc i @ js ''\<newline>  Fix: '' @ fix' i"

fun join :: "jsstring \<Rightarrow> jsstring list \<Rightarrow> jsstring" where
  "join sep [] = []"
| "join sep [x] = x"
| "join sep (x # y # ys) = x @ sep @ join sep (y # ys)"

definition issuesText :: "VerifierIssue list \<Rightarrow> jsstring" where
  "issuesText rem = join (js ''\<newline>\<newline>'') (map issue_line rem)"

text \<open>
  The outcome of \<^verbatim>\<open>fetch("/api/verify", ...)\<close> and of reading the event stream: the fetch is
  rejected, the status is not ok, a read of the body is rejected, or the stream ends with
  the text \<^verbatim>\<open>full\<close> accumulated from its \<^verbatim>\<open>data:\<close> lines. The first three raise inside the
  \<^verbatim>\<open>try\<close> block.
\<close>

datatype response = Rejected | Not_ok | Read_failed | Full jsstring

definition failed :: "response \<Rightarrow> bool" where
  "failed r = (case r of Full full \<Rightarrow> False | Rejected \<Rightarrow> True | Not_ok \<Rightarrow> True | Read_failed \<Rightarrow> True)"

text \<open>
  The body of the request of \<^verbatim>\<open>applyAllFixes\<close>, before \<^verbatim>\<open>JSON.stringify\<close>:
  \<^verbatim>\<open>{ documents, mode: "harmonize", report: `Fix ALL of the following issues:\n\n${issuesText}` }\<close>.
\<close>

definition harmonize_all_request :: "js_record \<Rightarrow> VerifierIssue list \<Rightarrow> harmonize_request" where
  "harmonize_all_request docs rem =
     \<lparr>req_documents = docs, mode = js ''harmonize'',
      report = js ''Fix ALL of the following issues:\<newline>\<newline>'' @ issuesText rem\<rparr>"

text \<open>
  \<^verbatim>\<open>
  const applyAllFixes = useCallback(async () => {
    const remaining = issues.filter(...);
    if (remaining.length === 0) return;
    updateState({ phase: "harmonizing" });
    onSnapshotVersions(documents, "harmonized");
    try {
      const issuesText = remaining.map(...).join("\n\n");
      const res = await fetch("/api/verify", { method: "POST", ...,
        body: JSON.stringify({ documents, mode: "harmonize",
          report: `Fix ALL of the following issues:\n\n${issuesText}` }) });
      if (!res.ok) throw new Error(`HTTP ${res.status}`);
      ... (full accumulated from the stream)
      const { documents: correctedDocs } = parseDocumentBlocks(full);
      if (Object.keys(correctedDocs).length > 0) { onDocumentsUpdate(correctedDocs); }
      updateState({ phase: "done",
        applied: [...verifierState.applied, ...remaining.map((i) => i.id)] });
    } catch {
      updateState({ phase: "ready" });
    }
  }, [...]);
  \<close>
  \<^verbatim>\<open>updateState(patch)\<close> is \<^verbatim>\<open>onVerifierStateChange({ ...verifierState, ...patch })\<close> with the
  \<^verbatim>\<open>verifierState\<close> and \<^verbatim>\<open>documents\<close> of the render that made the callback, here the state at
  the call. \<open>server\<close> is the service behind \<^verbatim>\<open>/api/verify\<close>; \<open>t_snapshot\<close> and \<open>t_merge\<close> are the
  two readings of the clock. The panel is rendered only when a session is loaded.
\<close>

definition applyAllFixes ::
  "(harmonize_request \<Rightarrow> response) \<Rightarrow> int \<Rightarrow> int \<Rightarrow> world \<Rightarrow> world"
where
  "applyAllFixes server t_snapshot t_merge w =
     (case session w of
        None \<Rightarrow> w
      | Some s \<Rightarrow>
          (let vs = verifierState w;
               docs = Session.documents s;
               rem = remaining vs
           in if rem = [] then w
              else
                (let w1 = w\<lparr>verifierState := vs\<lparr>phase := Harmonizing\<rparr>\<rparr>;
                     w2 = handleSnapshotVersions docs Harmonized t_snapshot w1;
                     req = harmonize_all_request docs rem;
                     w3 = w2\<lparr>sent := sent w2 @ [req]\<rparr>
                 in (case server req of
                       Full full \<Rightarrow>
                         (let correctedDocs = parsed.documents (parseDocumentBlocks full);
                              w4 = (if own_keys correctedDocs \<noteq> []
                                    then handleDocumentsUpdate correctedDocs t_merge w3
                                    else w3)
                          in w4\<lparr>verifierState :=
                                  vs\<lparr>phase := Done,
                                     applied := applied vs @ map VerifierIssue.id' rem\<rparr>\<rparr>)
                     | failure \<Rightarrow> w3\<lparr>verifierState := vs\<lparr>phase := Ready\<rparr>\<rparr>))))"

section \<open>Stopping a generation (\<^verbatim>\<open>ChatPanel\<close>)\<close>

text \<open>
  \<^verbatim>\<open>
  const handleStop = () => {
    abortRef.current?.abort();
    onStreamingChange(false);
    if (streamingContent) {
      const { cleanText, documents } = parseDocumentBlocks(streamingContent);
      const assistantMsg: ChatMessage = {
        id: crypto.randomUUID(), role: "assistant",
        content: cleanText || streamingContent, timestamp: Date.now() };
      onMessagesUpdate([...messages, assistantMsg]);
      if (Object.keys(documents).length > 0) onDocumentsUpdate(documents);
      setStreamingContent("");
    }
  };
  \<close>
  \<^verbatim>\<open>messages\<close> is the message list of the session the panel was rendered with. Aborting
  the request changes nothing of this state.
\<close>

definition handleStop :: "jsstring \<Rightarrow> int \<Rightarrow> int \<Rightarrow> int \<Rightarrow> world \<Rightarrow> world" where
  "handleStop uuid t_message t_messages t_docs w =
     (case session w of
        None \<Rightarrow> w
      | Some s \<Rightarrow>
          (let w1 = w\<lparr>isStreaming := False\<rparr>
           in if streamingContent w = [] then w1
              else
                (let p = parseDocumentBlocks (streamingContent w);
                     assistantMsg =
                       \<lparr>ChatMessage.id' = uuid, role = Assistant,
                        ChatMessage.content =
                          (if cleanText p \<noteq> [] then cleanText p else streamingContent w),
                        ChatMessage.timestamp = t_message\<rparr>;
                     w2 = handleMessagesUpdate (messages s @ [assistantMsg]) t_messages w1;
                     w3 = (if own_keys (parsed.documents p) \<noteq> []
                           then handleDocumentsUpdate (parsed.documents p) t_docs w2
                           else w2)
                 in w3\<lparr>streamingContent := []\<rparr>)))"

section \<open>The specification's notions\<close>

text \<open>
  A complete (closed) document block, in the words of the specification: a marker
  \<^verbatim>\<open>~~~doc:<Label>\<close> with a label that is not empty and ends at the line break, any content,
  and a closing \<^verbatim>\<open>~~~\<close>. \<open>has_closed_block text\<close> says that \<open>text\<close> contains one somewhere.
\<close>

definition has_closed_block :: "jsstring \<Rightarrow> bool" where
  "has_closed_block text \<longleftrightarrow>
     (\<exists>pre l ct post. text = pre @ doc_open @ l @ LF # ct @ fence @ post \<and> l \<noteq> [] \<and> LF \<notin> set l)"

text \<open>
  The block format of the specification, \<^verbatim>\<open>~~~doc:<Label>\n<content>~~~\<close>, as a generator:
  an input is a sequence of prose and blocks. A block is well formed when its label is
  non-empty and has no line break and the first \<^verbatim>\<open>~~~\<close> after its marker line is its closing
  fence (the content followed by two tildes holds no \<^verbatim>\<open>~~~\<close>); prose is any text.
  \<open>prose_of\<close> is the prose taken together, the blocks left out; \<open>blocks_of\<close> are the blocks.
\<close>

datatype segment = Prose jsstring | Block jsstring jsstring

fun render_segment :: "segment \<Rightarrow> jsstring" where
  "render_segment (Prose p) = p"
| "render_segment (Block l ct) = doc_open @ l @ LF # ct @ fence"

definition render :: "segment list \<Rightarrow> jsstring" where
  "render segs = concat (map render_segment segs)"

fun well_formed_segment :: "segment \<Rightarrow> bool" where
  "well_formed_segment (Prose p) \<longleftrightarrow> True"
| "well_formed_segment (Block l ct) \<longleftrightarrow>
     l \<noteq> [] \<and> LF \<notin> set l \<and> \<not> occurs_in fence (ct @ [tilde, tilde])"

fun prose_of :: "segment list \<Rightarrow> jsstring" where
  "prose_of [] = []"
| "prose_of (Prose p # segs) = p @ prose_of segs"
| "prose_of (Block l ct # segs) = prose_of segs"

fun blocks_of :: "segment list \<Rightarrow> (jsstring \<times> jsstring) list" where
  "blocks_of [] = []"
| "blocks_of (Prose p # segs) = blocks_of segs"
| "blocks_of (Block l ct # segs) = (l, ct) # blocks_of segs"

text \<open>
  Every input is such a sequence: \<open>scan_segments\<close> reads it as the scan of the pattern does,
  each match a block and each code unit passed over a piece of prose.
\<close>

function scan_segments :: "jsstring \<Rightarrow> segment list" where
  "scan_segments [] = []"
| "scan_segments (c # cs) =
     (case doc_match_here (c # cs) of
        Some (l, ct, rest) \<Rightarrow> Block l ct # scan_segments rest
      | None \<Rightarrow> Prose [c] # scan_segments cs)"
  by pat_completeness auto
termination
  by (relation "measure length") (auto dest: doc_match_here_shorter)

subsection \<open>Sample inputs\<close>

text \<open>
  Scenario A of the specification as segments, a block after prose with a single tilde,
  a marker that is never closed, a closed
  block between two pieces of text that join into a marker, a block with a second fence
  after its closing one, and the cancelled stream of scenario C.
\<close>

definition scenario_A :: "segment list" where
  "scenario_A =
     [Prose (js ''Here is your PRD.\<newline>''),
      Block (js ''PRD'') (js ''# My PRD\<newline>content\<newline>''),
      Prose (js ''\<newline>Done.'')]"

definition tilde_prose :: "segment list" where
  "tilde_prose = [Prose (js ''about ~5 users ''), Block (js ''PRD'') (js ''X\<newline>'')]"

definition unclosed_marker :: jsstring where
  "unclosed_marker = js ''Intro ~~~doc:PRD\<newline># Title''"

definition joined_marker :: jsstring where
  "joined_marker = js ''~~~d~~~doc:A\<newline>x~~~oc:B\<newline>y~~~''"

definition fenced_twice :: jsstring where
  "fenced_twice = js ''~~~doc:PRD\<newline>a ~~ b ~~~ c ~~~''"

definition scenario_C :: jsstring where
  "scenario_C = js ''Summary text ~~~doc:Tech Spec\<newline># Spec\<newline>''"

text \<open>A session with two documents, and the page at the moment scenario C is cancelled.\<close>

definition sample_session :: Session where
  "sample_session =
     \<lparr>Session.id' = js ''session-1'', name = js ''Demo'', instructionKey = js ''prd'',
      createdAt = 1000, updatedAt = 1000, messages = [],
      documents = [(js ''PRD'', js ''v1''), (js ''Design'', js ''d1'')],
      documentHistory = []\<rparr>"

definition sample_world :: world where
  "sample_world =
     \<lparr>session = Some sample_session, activeDoc = None, isStreaming = False,
      streamingContent = [], verifierState = INITIAL_VERIFIER_STATE, db = [],
      pendingSession = None, sent = []\<rparr>"

definition cancelled_world :: world where
  "cancelled_world = sample_world\<lparr>isStreaming := True, streamingContent := scenario_C\<rparr>"

text \<open>
  Two blocks with the same label: once \<^verbatim>\<open>__proto__\<close>, once \<^verbatim>\<open>PRD\<close> (the second written with
  surrounding blanks). A verifier report whose issues block is not JSON, and a stand-in
  for \<^verbatim>\<open>JSON.parse\<close> that accepts the empty array and rejects everything else.
\<close>

definition proto_blocks :: jsstring where
  "proto_blocks = js ''~~~doc:__proto__\<newline>A\<newline>~~~\<newline>~~~doc:__proto__\<newline>B\<newline>~~~''"

definition prd_blocks :: jsstring where
  "prd_blocks = js ''~~~doc:PRD\<newline>A\<newline>~~~\<newline>~~~doc: PRD \<newline>B\<newline>~~~''"

definition rejecting_parser :: "jsstring \<Rightarrow> js_error + VerifierIssue list" where
  "rejecting_parser s = (if s = js ''[]'' then Inr [] else Inl SyntaxError)"

definition malformed_report :: jsstring where
  "malformed_report = js ''Report.\<newline>~~~issues\<newline>NOT_JSON~~~\<newline>~~~summary\<newline>ok~~~''"

text \<open>
  A verifier state in phase \<^verbatim>\<open>ready\<close> with three outstanding issues that are not of severity
  \<^verbatim>\<open>info\<close> (over the two target documents) and one that is; a service that answers with a
  status that is not ok, and one that answers with a corrected \<^verbatim>\<open>PRD\<close>; a session whose
  history holds five versions of \<^verbatim>\<open>PRD\<close>.
\<close>

definition sample_issue :: "string \<Rightarrow> severity \<Rightarrow> string \<Rightarrow> VerifierIssue" where
  "sample_issue i sv target =
     \<lparr>VerifierIssue.id' = js i, severity = sv, type' = js ''contradiction'',
      title = js ''Mismatch'', description = js ''The documents disagree.'', affectedDocs = [],
      evidence = [], fix' = js ''Align the documents.'', targetDoc = js target\<rparr>"

definition ready_world :: world where
  "ready_world =
     sample_world\<lparr>verifierState :=
       \<lparr>phase = Ready,
        issues = [sample_issue ''R-001'' Critical ''PRD'', sample_issue ''R-002'' Warning ''PRD'',
                  sample_issue ''R-003'' Warning ''Design'', sample_issue ''R-004'' Info ''Design''],
        summary = js ''Three contradictions.'', dismissed = [], applied = [],
        rawReport = js ''raw report''\<rparr>\<rparr>"

text \<open>
  A report in which an issue of severity \<^verbatim>\<open>warning\<close> and one of severity \<^verbatim>\<open>info\<close> bear the same
  id: the ids are read from the verifier's JSON and nothing makes them distinct.
\<close>

definition shared_id_world :: world where
  "shared_id_world =
     sample_world\<lparr>verifierState :=
       \<lparr>phase = Ready,
        issues = [sample_issue ''R-001'' Warning ''PRD'', sample_issue ''R-001'' Info ''Design''],
        summary = js ''Two findings.'', dismissed = [], applied = [],
        rawReport = js ''raw report''\<rparr>\<rparr>"

definition failing_server :: "harmonize_request \<Rightarrow> response" where
  "failing_server req = Not_ok"

definition fixing_server :: "harmonize_request \<Rightarrow> response" where
  "fixing_server req = Full (js ''~~~doc:PRD\<newline>v2\<newline>~~~'')"

definition sample_version :: "string \<Rightarrow> int \<Rightarrow> DocVersion" where
  "sample_version ct ts =
     \<lparr>docType = js ''PRD'', DocVersion.content = js ct, DocVersion.timestamp = ts, source = Generated\<rparr>"

definition five_versions :: Session where
  "five_versions =
     sample_session\<lparr>documentHistory :=
       [sample_version ''a'' 50, sample_version ''b'' 30, sample_version ''c'' 90,
        sample_version ''d'' 10, sample_version ''e'' 70]\<rparr>"

subsection \<open>The history of one document type\<close>

text \<open>
  \<open>versions_of d history\<close> are the versions recorded for the document type \<open>d\<close>, in the order
  of the history. \<open>grouped byDocType history\<close> is the invariant of the grouping loop of
  \<^verbatim>\<open>trimSession\<close>: the keys are distinct and each key holds the versions of its type.
\<close>

definition versions_of :: "jsstring \<Rightarrow> DocVersion list \<Rightarrow> DocVersion list" where
  "versions_of d history = filter (\<lambda>v. docType v = d) history"

definition grouped :: "(jsstring \<times> DocVersion list) list \<Rightarrow> DocVersion list \<Rightarrow> bool" where
  "grouped byDocType history \<longleftrightarrow>
     distinct (map fst byDocType)
     \<and> (\<forall>k. map_of byDocType k =
              (if versions_of k history = [] then None else Some (versions_of k history)))"

section \<open>Properties of the block parser\<close>

subsection \<open>Occurrences and the first fence\<close>

lemma occurs_in_iff: "occurs_in pat s \<longleftrightarrow> (\<exists>p q. s = p @ pat @ q)"
proof (induction s)
  case Nil
  show ?case by auto
next
  case (Cons c cs)
  show ?case
  proof
    assume "occurs_in pat (c # cs)"
    then consider "prefix pat (c # cs)" | "occurs_in pat cs"
      by auto
    then show "\<exists>p q. c # cs = p @ pat @ q"
    proof cases
      case 1
      then obtain q where "c # cs = pat @ q"
        by (auto simp: prefix_def)
      then have "c # cs = [] @ pat @ q"
        by simp
      then show ?thesis by blast
    next
      case 2
      with Cons.IH obtain p q where "cs = p @ pat @ q"
        by auto
      then have "c # cs = (c # p) @ pat @ q"
        by simp
      then show ?thesis by blast
    qed
  next
    assume "\<exists>p q. c # cs = p @ pat @ q"
    then obtain p q where e: "c # cs = p @ pat @ q"
      by auto
    show "occurs_in pat (c # cs)"
    proof (cases p)
      case Nil
      with e have "prefix pat (c # cs)"
        by (simp add: prefix_def)
      then show ?thesis by simp
    next
      case (Cons x p')
      with e have "cs = p' @ pat @ q"
        by simp
      with Cons.IH have "occurs_in pat cs"
        by blast
      then show ?thesis by simp
    qed
  qed
qed

lemma occurs_in_part:
  "occurs_in pat m \<Longrightarrow> occurs_in pat (p @ m @ q)"
proof -
  assume "occurs_in pat m"
  then obtain a b where "m = a @ pat @ b"
    by (auto simp: occurs_in_iff)
  then have "p @ m @ q = (p @ a) @ pat @ (b @ q)"
    by simp
  then show ?thesis
    unfolding occurs_in_iff by blast
qed

lemma split_first_Some:
  "split_first pat s = Some (b, a) \<Longrightarrow> s = b @ pat @ a"
proof (induction s arbitrary: b)
  case Nil
  then show ?case by (simp split: if_splits)
next
  case (Cons c cs)
  show ?case
  proof (cases "prefix pat (c # cs)")
    case True
    with Cons.prems have "b = []" "a = drop (length pat) (c # cs)"
      by auto
    moreover from True obtain q where q: "c # cs = pat @ q"
      by (auto simp: prefix_def)
    ultimately show ?thesis
      by (metis append_Nil append_eq_conv_conj)
  next
    case False
    with Cons.prems obtain b' where b': "split_first pat cs = Some (b', a)" "b = c # b'"
      by (auto split: prod.splits)
    from Cons.IH [OF b'(1)] b'(2) show ?thesis by simp
  qed
qed

lemma split_first_before:
  "split_first pat s = Some (b, a) \<Longrightarrow> pat \<noteq> [] \<Longrightarrow> \<not> occurs_in pat b"
proof (induction s arbitrary: b)
  case Nil
  then show ?case by (simp split: if_splits)
next
  case (Cons c cs)
  show ?case
  proof (cases "prefix pat (c # cs)")
    case True
    with Cons.prems show ?thesis by auto
  next
    case False
    with Cons.prems obtain b' where b': "split_first pat cs = Some (b', a)" "b = c # b'"
      by (auto split: prod.splits)
    have "\<not> occurs_in pat b'"
      using Cons.IH [OF b'(1) Cons.prems(2)] .
    moreover have "\<not> prefix pat (c # b')"
    proof
      assume "prefix pat (c # b')"
      then have "prefix pat ((c # b') @ pat @ a)"
        by (rule prefix_prefix)
      with split_first_Some [OF b'(1)] False show False
        by simp
    qed
    ultimately show ?thesis
      by (simp add: b'(2))
  qed
qed

lemma split_first_None_iff:
  "split_first pat s = None \<longleftrightarrow> \<not> occurs_in pat s"
  by (induction s) auto

lemma trim_part:
  "\<exists>p q. s = p @ trim s @ q"
proof -
  let ?m = "dropWhile is_ws s"
  have "s = takeWhile is_ws s @ ?m"
    by simp
  moreover have "rev ?m = takeWhile is_ws (rev ?m) @ dropWhile is_ws (rev ?m)"
    by simp
  then have "?m = rev (dropWhile is_ws (rev ?m)) @ rev (takeWhile is_ws (rev ?m))"
    by (metis rev_append rev_rev_ident)
  ultimately have "s = takeWhile is_ws s @ trim s @ rev (takeWhile is_ws (rev ?m))"
    by (simp add: trim_def)
  then show ?thesis by blast
qed

lemma occurs_in_trim:
  "occurs_in pat (trim s) \<Longrightarrow> occurs_in pat s"
proof -
  assume a: "occurs_in pat (trim s)"
  obtain p q where "s = p @ trim s @ q"
    using trim_part by blast
  with occurs_in_part [OF a, of p q] show ?thesis
    by simp
qed

lemma doc_match_here_Some:
  assumes "doc_match_here s = Some (l, ct, rest)"
  shows "s = doc_open @ l @ LF # ct @ fence @ rest" and "l \<noteq> []" and "LF \<notin> set l"
    and "\<not> occurs_in fence ct"
proof -
  let ?r = "drop (length doc_open) s"
  let ?P = "\<lambda>c. c \<noteq> LF"
  from assms have p: "prefix doc_open s"
    by (simp add: doc_match_here_def split: if_splits)
  from assms p obtain x body where
    l: "l = takeWhile ?P ?r" and ne: "l \<noteq> []" and
    d: "dropWhile ?P ?r = x # body" and
    sp: "split_first fence body = Some (ct, rest)"
    by (auto simp: doc_match_here_def Let_def split: if_splits list.splits option.splits)
  from d have "x = LF"
    using hd_dropWhile [of ?P ?r] by auto
  have "?r = takeWhile ?P ?r @ dropWhile ?P ?r"
    by simp
  with l d \<open>x = LF\<close> have r: "?r = l @ LF # body"
    by simp
  from p have "s = doc_open @ ?r"
    by (metis append_eq_conv_conj prefix_def)
  with r split_first_Some [OF sp] show "s = doc_open @ l @ LF # ct @ fence @ rest"
    by simp
  show "l \<noteq> []" by fact
  show "LF \<notin> set l"
    unfolding l using set_takeWhileD by fastforce
  show "\<not> occurs_in fence ct"
    using split_first_before [OF sp] by (simp add: fence_def js_def)
qed

lemma doc_match_here_closed:
  assumes "l \<noteq> []" and "LF \<notin> set l"
  shows "\<exists>ct' rest'. doc_match_here (doc_open @ l @ LF # ct @ fence @ rest) = Some (l, ct', rest')"
proof -
  let ?s = "doc_open @ l @ LF # ct @ fence @ rest"
  let ?P = "\<lambda>c. c \<noteq> LF"
  from assms(2) have al: "\<forall>x\<in>set l. x \<noteq> LF"
    by auto
  have tw: "takeWhile ?P (l @ LF # ct @ fence @ rest) = l"
    using al by (simp add: takeWhile_tail)
  have dw: "dropWhile ?P (l @ LF # ct @ fence @ rest) = LF # ct @ fence @ rest"
    using al by (simp add: dropWhile_append3)
  have "occurs_in fence (ct @ fence @ rest)"
    unfolding occurs_in_iff by blast
  then obtain ct' rest' where "split_first fence (ct @ fence @ rest) = Some (ct', rest')"
    using split_first_None_iff [of fence "ct @ fence @ rest"] by fastforce
  then have "doc_match_here ?s = Some (l, ct', rest')"
    using assms(1) by (simp add: doc_match_here_def tw dw)
  then show ?thesis by blast
qed

subsection \<open>The scan and closed blocks\<close>

lemma exec_all_Cons_cases:
  obtains (found) l ct rest where "doc_match_here (c # cs) = Some (l, ct, rest)"
      "exec_all (c # cs) = (l, ct) # exec_all rest" "replace_all (c # cs) = replace_all rest"
    | (skip) "doc_match_here (c # cs) = None"
      "exec_all (c # cs) = exec_all cs" "replace_all (c # cs) = c # replace_all cs"
proof (cases "doc_match_here (c # cs)")
  case None
  then show ?thesis by (intro skip) simp_all
next
  case (Some m)
  obtain l ct rest where "m = (l, ct, rest)"
    by (cases m) auto
  with Some show ?thesis by (intro found [of l ct rest]) simp_all
qed

lemma exec_all_closed:
  "exec_all s \<noteq> [] \<Longrightarrow> has_closed_block s"
proof (induction s)
  case Nil
  then show ?case by simp
next
  case (Cons c cs)
  show ?case
  proof (cases rule: exec_all_Cons_cases [of c cs])
    case (found l ct rest)
    from doc_match_here_Some [OF found(1)]
    have "c # cs = [] @ doc_open @ l @ LF # ct @ fence @ rest" "l \<noteq> []" "LF \<notin> set l"
      by simp_all
    then show ?thesis
      unfolding has_closed_block_def by blast
  next
    case skip
    with Cons.prems have "exec_all cs \<noteq> []"
      by simp
    from Cons.IH [OF this] obtain pre l ct post where
      "cs = pre @ doc_open @ l @ LF # ct @ fence @ post" "l \<noteq> []" "LF \<notin> set l"
      unfolding has_closed_block_def by blast
    then have "c # cs = (c # pre) @ doc_open @ l @ LF # ct @ fence @ post" "l \<noteq> []" "LF \<notin> set l"
      by simp_all
    then show ?thesis
      unfolding has_closed_block_def by blast
  qed
qed

lemma doc_open_nonempty: "doc_open \<noteq> []"
  by (simp add: doc_open_def js_def)

lemma closed_exec_all:
  assumes "l \<noteq> []" and "LF \<notin> set l"
  shows "exec_all (pre @ doc_open @ l @ LF # ct @ fence @ post) \<noteq> []"
proof (induction pre)
  case Nil
  obtain c cs where s: "doc_open @ l @ LF # ct @ fence @ post = c # cs"
    using doc_open_nonempty by (cases "doc_open @ l @ LF # ct @ fence @ post") auto
  from doc_match_here_closed [OF assms, of ct post] obtain ct' rest' where
    "doc_match_here (c # cs) = Some (l, ct', rest')"
    unfolding s by blast
  then have "exec_all (c # cs) = (l, ct') # exec_all rest'"
    by simp
  then show ?case
    by (simp add: s)
next
  case (Cons x pre)
  let ?s = "pre @ doc_open @ l @ LF # ct @ fence @ post"
  show ?case
  proof (cases rule: exec_all_Cons_cases [of x ?s])
    case (found l' ct' rest)
    then show ?thesis by simp
  next
    case skip
    with Cons.IH show ?thesis by simp
  qed
qed

lemma exec_all_Nil_iff:
  "exec_all s = [] \<longleftrightarrow> \<not> has_closed_block s"
proof
  assume "exec_all s = []"
  show "\<not> has_closed_block s"
  proof
    assume "has_closed_block s"
    then obtain pre l ct post where
      "s = pre @ doc_open @ l @ LF # ct @ fence @ post" "l \<noteq> []" "LF \<notin> set l"
      unfolding has_closed_block_def by blast
    with closed_exec_all [of l pre ct post] \<open>exec_all s = []\<close> show False
      by simp
  qed
next
  assume "\<not> has_closed_block s"
  then show "exec_all s = []"
    using exec_all_closed by blast
qed

lemma replace_all_unmatched:
  "exec_all s = [] \<Longrightarrow> replace_all s = s"
proof (induction s)
  case Nil
  then show ?case by simp
next
  case (Cons c cs)
  show ?case
  proof (cases rule: exec_all_Cons_cases [of c cs])
    case (found l ct rest)
    with Cons.prems show ?thesis by simp
  next
    case skip
    with Cons show ?thesis by simp
  qed
qed

lemma exec_all_content_fence_free:
  "(l, ct) \<in> set (exec_all s) \<Longrightarrow> \<not> occurs_in fence ct"
proof (induction s rule: exec_all.induct)
  case 1
  then show ?case by simp
next
  case (2 c cs)
  show ?case
  proof (cases rule: exec_all_Cons_cases [of c cs])
    case (found l' ct' rest)
    with "2.prems" consider "(l, ct) = (l', ct')" | "(l, ct) \<in> set (exec_all rest)"
      by auto
    then show ?thesis
    proof cases
      case 1
      with doc_match_here_Some(4) [OF found(1)] show ?thesis by simp
    next
      case 2
      with "2.IH" found(1) show ?thesis by blast
    qed
  next
    case skip
    with "2.prems" "2.IH" show ?thesis by simp
  qed
qed

subsection \<open>The extracted documents\<close>

lemmas parser_defs =
  parseDocumentBlocks_def js_def doc_match_here_def doc_open_def fence_def LF_def tilde_def
  trim_def is_ws_def js_assign_def proto_key_def

lemma fence_nonempty: "fence \<noteq> []"
  by (simp add: fence_def js_def)

lemma set_update_cases:
  "(a, b) \<in> set (AList.update k v al) \<Longrightarrow> (a, b) = (k, v) \<or> (a, b) \<in> set al"
  by (induction al) (auto split: if_splits)

lemma js_assign_entries:
  "(a, b) \<in> set (js_assign obj k v) \<Longrightarrow> (a, b) = (k, v) \<or> (a, b) \<in> set obj"
  by (auto simp: js_assign_def dest: set_update_cases split: if_splits)

lemma collected_values:
  "(k, v) \<in> set (foldl (\<lambda>docs (l, ct). js_assign docs (trim l) (trim ct)) obj ms) \<Longrightarrow>
     (k, v) \<in> set obj \<or> (\<exists>l ct. (l, ct) \<in> set ms \<and> k = trim l \<and> v = trim ct)"
proof (induction ms arbitrary: obj)
  case Nil
  then show ?case by simp
next
  case (Cons m ms)
  obtain l ct where m: "m = (l, ct)"
    by (cases m) auto
  from Cons.prems have
    "(k, v) \<in> set (foldl (\<lambda>docs (l, ct). js_assign docs (trim l) (trim ct))
        (js_assign obj (trim l) (trim ct)) ms)"
    by (simp add: m)
  from Cons.IH [OF this] show ?case
    using js_assign_entries [of k v obj "trim l" "trim ct"] by (auto simp: m)
qed

text \<open>
  Claim C9. For every input string and every entry of the \<^verbatim>\<open>documents\<close> mapping that
  \<^verbatim>\<open>parseDocumentBlocks\<close> returns, the extracted content contains no \<^verbatim>\<open>~~~\<close>: the lazy match
  ends at the first fence after the marker line, and trimming only removes code units.
\<close>

theorem extracted_content_has_no_fence:
  "(k, v) \<in> set (parsed.documents (parseDocumentBlocks text)) \<Longrightarrow> \<not> occurs_in fence v"
proof
  assume a: "(k, v) \<in> set (parsed.documents (parseDocumentBlocks text))" and o: "occurs_in fence v"
  from a obtain l ct where m: "(l, ct) \<in> set (exec_all text)" and v: "v = trim ct"
    using collected_values [of k v "[]" "exec_all text"] by (auto simp: parseDocumentBlocks_def)
  from o v have "occurs_in fence ct"
    using occurs_in_trim by blast
  with exec_all_content_fence_free [OF m] show False
    by simp
qed

theorem extracted_content_has_no_fence_witness:
  "(js ''PRD'', js ''a ~~ b'') \<in> set (parsed.documents (parseDocumentBlocks fenced_twice))
   \<and> \<not> occurs_in fence (js ''a ~~ b'')"
proof -
  have h: "(js ''PRD'', js ''a ~~ b'') \<in> set (parsed.documents (parseDocumentBlocks fenced_twice))"
    by (simp add: fenced_twice_def parser_defs)
  from extracted_content_has_no_fence [OF h] h show ?thesis
    by blast
qed

subsection \<open>Well-formed input\<close>

lemma fence_tildes: "fence = [tilde, tilde, tilde]"
  by (simp add: fence_def js_def tilde_def)

lemma split_first_closing:
  "\<not> occurs_in fence (ct @ [tilde, tilde]) \<Longrightarrow> split_first fence (ct @ fence @ rest) = Some (ct, rest)"
proof (induction ct)
  case Nil
  then show ?case by (simp add: fence_tildes)
next
  case (Cons c ct)
  from Cons.prems have np: "\<not> prefix fence (c # ct @ [tilde, tilde])"
    and no: "\<not> occurs_in fence (ct @ [tilde, tilde])"
    by simp_all
  have "\<not> prefix fence (c # ct @ fence @ rest)"
  proof
    assume p: "prefix fence (c # ct @ fence @ rest)"
    have q: "prefix (c # ct @ [tilde, tilde]) (c # ct @ fence @ rest)"
      by (simp add: fence_tildes)
    have "length fence \<le> length (c # ct @ [tilde, tilde])"
      by (simp add: fence_tildes)
    from prefix_length_prefix [OF p q this] np show False
      by simp
  qed
  with Cons.IH [OF no] show ?case
    by simp
qed

lemma doc_match_here_block:
  assumes "well_formed_segment (Block l ct)"
  shows "doc_match_here (doc_open @ l @ LF # ct @ fence @ rest) = Some (l, ct, rest)"
proof -
  let ?P = "\<lambda>c. c \<noteq> LF"
  from assms have ne: "l \<noteq> []" and al: "\<forall>x\<in>set l. x \<noteq> LF"
    and nf: "\<not> occurs_in fence (ct @ [tilde, tilde])"
    by auto
  have tw: "takeWhile ?P (l @ LF # ct @ fence @ rest) = l"
    using al by (simp add: takeWhile_tail)
  have dw: "dropWhile ?P (l @ LF # ct @ fence @ rest) = LF # ct @ fence @ rest"
    using al by (simp add: dropWhile_append3)
  show ?thesis
    using ne by (simp add: doc_match_here_def tw dw split_first_closing [OF nf])
qed

lemma occurs_in_length: "occurs_in pat s \<Longrightarrow> length pat \<le> length s"
  by (auto simp: occurs_in_iff)

lemma split_first_earliest:
  "split_first pat s = Some (b, a) \<Longrightarrow> pat \<noteq> [] \<Longrightarrow> \<not> occurs_in pat (b @ butlast pat)"
proof (induction s arbitrary: b)
  case Nil
  then show ?case by (simp split: if_splits)
next
  case (Cons c cs)
  show ?case
  proof (cases "prefix pat (c # cs)")
    case True
    with Cons.prems have "b = []"
      by auto
    moreover have "\<not> occurs_in pat (butlast pat)"
    proof
      assume "occurs_in pat (butlast pat)"
      then have "length pat \<le> length (butlast pat)"
        by (rule occurs_in_length)
      moreover have "length (butlast pat) < length pat"
        using Cons.prems(2) by (cases pat) simp_all
      ultimately show False
        by linarith
    qed
    ultimately show ?thesis
      by simp
  next
    case False
    with Cons.prems obtain b' where b': "split_first pat cs = Some (b', a)" "b = c # b'"
      by (auto split: prod.splits)
    have "\<not> occurs_in pat (b' @ butlast pat)"
      using Cons.IH [OF b'(1) Cons.prems(2)] .
    moreover have "\<not> prefix pat (c # b' @ butlast pat)"
    proof
      assume "prefix pat (c # b' @ butlast pat)"
      moreover have "prefix (c # b' @ butlast pat) (c # b' @ pat @ a)"
        using Cons.prems(2) by (metis Cons_prefix_Cons append_butlast_last_id append_assoc prefixI same_prefix_prefix)
      ultimately have "prefix pat (c # b' @ pat @ a)"
        by (rule prefix_order.trans)
      with split_first_Some [OF b'(1)] False show False
        by simp
    qed
    ultimately show ?thesis
      by (simp add: b'(2))
  qed
qed

text \<open>
  One attempt of the pattern, declaratively: it succeeds with label \<open>l\<close>, content \<open>ct\<close> and
  remainder \<open>rest\<close> exactly when the text is the marker, \<open>l\<close>, a line break, \<open>ct\<close>, a fence
  and \<open>rest\<close>, where \<open>l\<close> is non-empty without line break and the fence is the first one
  after the line break.
\<close>

lemma doc_match_here_iff:
  "doc_match_here s = Some (l, ct, rest) \<longleftrightarrow>
     s = doc_open @ l @ LF # ct @ fence @ rest \<and> well_formed_segment (Block l ct)"
proof
  assume m: "doc_match_here s = Some (l, ct, rest)"
  let ?r = "drop (length doc_open) s"
  from m have p: "prefix doc_open s"
    by (simp add: doc_match_here_def split: if_splits)
  from m p obtain x body where
    d: "dropWhile (\<lambda>c. c \<noteq> LF) ?r = x # body" and
    sp: "split_first fence body = Some (ct, rest)"
    by (auto simp: doc_match_here_def Let_def split: if_splits list.splits option.splits)
  have "butlast fence = [tilde, tilde]"
    by (simp add: fence_tildes)
  with split_first_earliest [OF sp] have "\<not> occurs_in fence (ct @ [tilde, tilde])"
    by (simp add: fence_nonempty)
  with doc_match_here_Some [OF m]
  show "s = doc_open @ l @ LF # ct @ fence @ rest \<and> well_formed_segment (Block l ct)"
    by simp
next
  assume "s = doc_open @ l @ LF # ct @ fence @ rest \<and> well_formed_segment (Block l ct)"
  then show "doc_match_here s = Some (l, ct, rest)"
    using doc_match_here_block by blast
qed

lemma doc_open_units: "doc_open = [0x7E, 0x7E, 0x7E, 0x64, 0x6F, 0x63, 0x3A]"
  by (simp add: doc_open_def js_def)

lemma occurs_in_prefix: "prefix pat s \<Longrightarrow> occurs_in pat s"
  by (cases s) (simp_all add: prefix_def)

text \<open>
  The marker has no border: no proper tail of \<^verbatim>\<open>~~~doc:\<close> begins a text that continues with
  the marker. So prose without the marker, put before a block, is passed over by the scan
  whatever tildes it ends with.
\<close>

lemma marker_tail_is_no_marker_start:
  "0 < i \<Longrightarrow> i + length q < length doc_open \<Longrightarrow> \<not> prefix (drop i doc_open) (q @ doc_open @ x)"
proof (induction q arbitrary: i)
  case Nil
  then have "i = 1 \<or> i = 2 \<or> i = 3 \<or> i = 4 \<or> i = 5 \<or> i = 6"
    by (simp add: doc_open_units) arith
  then show ?case
    by (auto simp: doc_open_units)
next
  case (Cons a q)
  from Cons.prems have i: "i < length doc_open"
    by simp
  show ?case
  proof
    assume "prefix (drop i doc_open) ((a # q) @ doc_open @ x)"
    then have "prefix (doc_open ! i # drop (Suc i) doc_open) (a # q @ doc_open @ x)"
      using i by (simp add: Cons_nth_drop_Suc)
    then have "prefix (drop (Suc i) doc_open) (q @ doc_open @ x)"
      by simp
    moreover have "0 < Suc i" "Suc i + length q < length doc_open"
      using Cons.prems by simp_all
    ultimately show False
      using Cons.IH by blast
  qed
qed

lemma marker_has_no_border:
  assumes "\<not> occurs_in doc_open (c # q)"
  shows "\<not> prefix doc_open (c # q @ doc_open @ x)"
proof
  assume p: "prefix doc_open (c # q @ doc_open @ x)"
  show False
  proof (cases "length doc_open \<le> length (c # q)")
    case True
    have "prefix (c # q) (c # q @ doc_open @ x)"
      by simp
    from prefix_length_prefix [OF p this True] have "prefix doc_open (c # q)" .
    with assms show False
      using occurs_in_prefix by blast
  next
    case False
    then have l: "1 + length q < length doc_open"
      by simp
    from p have "prefix (drop 1 doc_open) (q @ doc_open @ x)"
      by (simp add: doc_open_units)
    with marker_tail_is_no_marker_start [of 1 q x] l show False
      by simp
  qed
qed

lemma doc_match_here_needs_marker:
  "\<not> prefix doc_open s \<Longrightarrow> doc_match_here s = None"
  by (simp add: doc_match_here_def)

lemma scan_markerless:
  "\<not> occurs_in doc_open p \<Longrightarrow> exec_all p = [] \<and> replace_all p = p"
  by (induction p) (simp_all add: doc_match_here_needs_marker)

lemma scan_prose_before_block:
  "\<not> occurs_in doc_open p \<Longrightarrow>
     exec_all (p @ doc_open @ x) = exec_all (doc_open @ x)
     \<and> replace_all (p @ doc_open @ x) = p @ replace_all (doc_open @ x)"
proof (induction p)
  case Nil
  then show ?case by simp
next
  case (Cons c q)
  from Cons.prems have q: "\<not> occurs_in doc_open q"
    by simp
  have "doc_match_here (c # q @ doc_open @ x) = None"
    using marker_has_no_border [OF Cons.prems] by (rule doc_match_here_needs_marker)
  with Cons.IH [OF q] show ?case
    by simp
qed

lemma scan_block:
  assumes "well_formed_segment (Block l ct)"
  shows "exec_all (doc_open @ l @ LF # ct @ fence @ s) = (l, ct) # exec_all s
       \<and> replace_all (doc_open @ l @ LF # ct @ fence @ s) = replace_all s"
proof -
  obtain c cs where s: "doc_open @ l @ LF # ct @ fence @ s = c # cs"
    using doc_open_nonempty by (cases "doc_open @ l @ LF # ct @ fence @ s") auto
  have "doc_match_here (c # cs) = Some (l, ct, s)"
    using doc_match_here_block [OF assms, of s] by (simp add: s)
  then show ?thesis
    unfolding s by simp
qed

lemma scan_render:
  "list_all well_formed_segment segs \<Longrightarrow> \<not> occurs_in doc_open (p @ prose_of segs) \<Longrightarrow>
     exec_all (p @ render segs) = blocks_of segs
     \<and> replace_all (p @ render segs) = p @ prose_of segs"
proof (induction segs arbitrary: p)
  case Nil
  then show ?case
    by (simp add: render_def scan_markerless)
next
  case (Cons sg segs)
  show ?case
  proof (cases sg)
    case (Prose p')
    with Cons.prems have "list_all well_formed_segment segs"
      and "\<not> occurs_in doc_open ((p @ p') @ prose_of segs)"
      by simp_all
    from Cons.IH [OF this] show ?thesis
      by (simp add: render_def Prose)
  next
    case (Block l ct)
    with Cons.prems have wf: "well_formed_segment (Block l ct)"
      and wfs: "list_all well_formed_segment segs"
      and no: "\<not> occurs_in doc_open (p @ prose_of segs)"
      by simp_all
    from no have np: "\<not> occurs_in doc_open p"
      using occurs_in_part [of doc_open p "[]" "prose_of segs"] by auto
    from no have nr: "\<not> occurs_in doc_open ([] @ prose_of segs)"
      using occurs_in_part [of doc_open "prose_of segs" p "[]"] by auto
    note ih = Cons.IH [OF wfs nr]
    have "exec_all (p @ render (sg # segs)) = exec_all (doc_open @ l @ LF # ct @ fence @ render segs)"
      "replace_all (p @ render (sg # segs)) = p @ replace_all (doc_open @ l @ LF # ct @ fence @ render segs)"
      using scan_prose_before_block [OF np, of "l @ LF # ct @ fence @ render segs"]
      by (simp_all add: render_def Block)
    with scan_block [OF wf, of "render segs"] ih show ?thesis
      by (simp add: Block)
  qed
qed

text \<open>
  Every input is the rendering of its scan, whose blocks are the matches and whose prose
  is what the replacement leaves.
\<close>

lemma scan_segments_sound:
  "render (scan_segments s) = s \<and> list_all well_formed_segment (scan_segments s)
   \<and> prose_of (scan_segments s) = replace_all s \<and> blocks_of (scan_segments s) = exec_all s"
proof (induction s rule: scan_segments.induct)
  case 1
  show ?case by (simp add: render_def)
next
  case (2 c cs)
  show ?case
  proof (cases "doc_match_here (c # cs)")
    case None
    with "2.IH" show ?thesis
      by (simp add: render_def)
  next
    case (Some m)
    obtain l ct rest where m: "m = (l, ct, rest)"
      by (cases m) auto
    from Some m have h: "doc_match_here (c # cs) = Some (l, ct, rest)"
      by simp
    from h have e: "c # cs = doc_open @ l @ LF # ct @ fence @ rest"
      and wf: "well_formed_segment (Block l ct)"
      by (simp_all add: doc_match_here_iff)
    from "2.IH"(2) [OF h refl refl] have ih:
      "render (scan_segments rest) = rest" "list_all well_formed_segment (scan_segments rest)"
      "prose_of (scan_segments rest) = replace_all rest" "blocks_of (scan_segments rest) = exec_all rest"
      by simp_all
    have sc: "scan_segments (c # cs) = Block l ct # scan_segments rest"
      "exec_all (c # cs) = (l, ct) # exec_all rest" "replace_all (c # cs) = replace_all rest"
      using h by simp_all
    have "render (Block l ct # scan_segments rest) = c # cs"
      using ih(1) e by (simp add: render_def)
    with wf ih show ?thesis
      unfolding sc by simp
  qed
qed

text \<open>
  The marker begins with a tilde and ends with a colon, neither of them white space, so
  trimming neither removes nor creates an occurrence.
\<close>

lemma occurs_in_dropWhile:
  "occurs_in pat s \<Longrightarrow> pat \<noteq> [] \<Longrightarrow> \<not> P (hd pat) \<Longrightarrow> occurs_in pat (dropWhile P s)"
proof (induction s)
  case Nil
  then show ?case by simp
next
  case (Cons c cs)
  show ?case
  proof (cases "P c")
    case True
    have "\<not> prefix pat (c # cs)"
    proof
      assume "prefix pat (c # cs)"
      with Cons.prems(2) have "hd pat = c"
        by (cases pat) auto
      with True Cons.prems(3) show False by simp
    qed
    with Cons.prems(1) have "occurs_in pat cs"
      by simp
    from Cons.IH [OF this Cons.prems(2,3)] True show ?thesis
      by simp
  next
    case False
    with Cons.prems(1) show ?thesis by simp
  qed
qed

lemma occurs_in_rev: "occurs_in pat s \<longleftrightarrow> occurs_in (rev pat) (rev s)"
proof -
  have "(\<exists>p q. s = p @ pat @ q) \<longleftrightarrow> (\<exists>p q. rev s = p @ rev pat @ q)"
  proof
    assume "\<exists>p q. s = p @ pat @ q"
    then obtain p q where "s = p @ pat @ q" by blast
    then have "rev s = rev q @ rev pat @ rev p" by simp
    then show "\<exists>p q. rev s = p @ rev pat @ q" by blast
  next
    assume "\<exists>p q. rev s = p @ rev pat @ q"
    then obtain p q where "rev s = p @ rev pat @ q" by blast
    then have "rev (rev s) = rev (p @ rev pat @ q)" by simp
    then have "s = rev q @ pat @ rev p" by simp
    then show "\<exists>p q. s = p @ pat @ q" by blast
  qed
  then show ?thesis
    by (simp add: occurs_in_iff)
qed

lemma marker_survives_trim:
  "occurs_in doc_open (trim s) \<longleftrightarrow> occurs_in doc_open s"
proof
  assume "occurs_in doc_open (trim s)"
  then show "occurs_in doc_open s"
    by (rule occurs_in_trim)
next
  assume o: "occurs_in doc_open s"
  have h: "\<not> is_ws (hd doc_open)" "\<not> is_ws (hd (rev doc_open))"
    by (simp_all add: doc_open_units is_ws_def)
  from occurs_in_dropWhile [where P = is_ws, OF o doc_open_nonempty h(1)]
  have "occurs_in (rev doc_open) (rev (dropWhile is_ws s))"
    using occurs_in_rev by blast
  then have "occurs_in (rev doc_open) (dropWhile is_ws (rev (dropWhile is_ws s)))"
    using h(2) doc_open_nonempty occurs_in_dropWhile [where P = is_ws and pat = "rev doc_open"] by simp
  then show "occurs_in doc_open (trim s)"
    unfolding trim_def using occurs_in_rev [of doc_open "rev (dropWhile is_ws (rev (dropWhile is_ws s)))"]
    by simp
qed

text \<open>
  Claim C1, as amended. The \<^verbatim>\<open>cleanText\<close> contains no \<^verbatim>\<open>~~~doc:\<close> exactly for the inputs that
  can be read as a sequence of prose pieces and well-formed closed blocks whose prose
  pieces, taken together, contain no \<^verbatim>\<open>~~~doc:\<close>: for every such sequence the \<^verbatim>\<open>cleanText\<close>
  is the joined prose, trimmed, and holds no marker; and every input whose \<^verbatim>\<open>cleanText\<close>
  holds no marker is such a sequence. An input that contains \<^verbatim>\<open>~~~doc:\<close> and no closed block
  keeps it in the \<^verbatim>\<open>cleanText\<close>. The claim as written, for every input string, fails.
\<close>

theorem clean_text_marker_free_iff_well_formed:
  "(list_all well_formed_segment segs \<and> \<not> occurs_in doc_open (prose_of segs) \<longrightarrow>
      cleanText (parseDocumentBlocks (render segs)) = trim (prose_of segs)
      \<and> \<not> occurs_in doc_open (cleanText (parseDocumentBlocks (render segs))))
   \<and> (\<not> occurs_in doc_open (cleanText (parseDocumentBlocks text)) \<longrightarrow>
        (\<exists>segs. render segs = text \<and> list_all well_formed_segment segs
                \<and> \<not> occurs_in doc_open (prose_of segs)))
   \<and> (\<not> has_closed_block text \<and> occurs_in doc_open text \<longrightarrow>
        occurs_in doc_open (cleanText (parseDocumentBlocks text)))"
proof (intro conjI impI)
  assume a: "list_all well_formed_segment segs \<and> \<not> occurs_in doc_open (prose_of segs)"
  then have "replace_all ([] @ render segs) = [] @ prose_of segs"
    using scan_render [of segs "[]"] by simp
  then show c: "cleanText (parseDocumentBlocks (render segs)) = trim (prose_of segs)"
    by (simp add: parseDocumentBlocks_def)
  from a show "\<not> occurs_in doc_open (cleanText (parseDocumentBlocks (render segs)))"
    by (simp add: c marker_survives_trim)
next
  assume "\<not> occurs_in doc_open (cleanText (parseDocumentBlocks text))"
  then have "\<not> occurs_in doc_open (prose_of (scan_segments text))"
    by (simp add: parseDocumentBlocks_def marker_survives_trim scan_segments_sound)
  with scan_segments_sound [of "text"]
  show "\<exists>segs. render segs = text \<and> list_all well_formed_segment segs
                \<and> \<not> occurs_in doc_open (prose_of segs)"
    by blast
next
  assume a: "\<not> has_closed_block text \<and> occurs_in doc_open text"
  then have "exec_all text = []"
    by (simp add: exec_all_Nil_iff)
  then have "cleanText (parseDocumentBlocks text) = trim text"
    by (simp add: parseDocumentBlocks_def replace_all_unmatched)
  with a show "occurs_in doc_open (cleanText (parseDocumentBlocks text))"
    by (simp add: marker_survives_trim)
qed

theorem clean_text_marker_free_iff_well_formed_witness:
  "list_all well_formed_segment tilde_prose \<and> \<not> occurs_in doc_open (prose_of tilde_prose)
   \<and> render tilde_prose = js ''about ~5 users ~~~doc:PRD\<newline>X\<newline>~~~''
   \<and> cleanText (parseDocumentBlocks (render tilde_prose)) = js ''about ~5 users''
   \<and> \<not> occurs_in doc_open (cleanText (parseDocumentBlocks (render tilde_prose)))
   \<and> \<not> occurs_in doc_open (cleanText (parseDocumentBlocks fenced_twice))
   \<and> (\<exists>segs. render segs = fenced_twice \<and> list_all well_formed_segment segs
              \<and> \<not> occurs_in doc_open (prose_of segs))
   \<and> \<not> has_closed_block scenario_C \<and> occurs_in doc_open scenario_C
   \<and> occurs_in doc_open (cleanText (parseDocumentBlocks scenario_C))
   \<and> list_all well_formed_segment scenario_A \<and> \<not> occurs_in doc_open (prose_of scenario_A)
   \<and> render scenario_A =
       js ''Here is your PRD.\<newline>~~~doc:PRD\<newline># My PRD\<newline>content\<newline>~~~\<newline>Done.''
   \<and> cleanText (parseDocumentBlocks (render scenario_A)) = js ''Here is your PRD.\<newline>\<newline>Done.''"
proof -
  have ha: "list_all well_formed_segment scenario_A" "\<not> occurs_in doc_open (prose_of scenario_A)"
    by (simp_all add: scenario_A_def js_def LF_def tilde_def fence_def doc_open_def)
  have ra: "render scenario_A =
       js ''Here is your PRD.\<newline>~~~doc:PRD\<newline># My PRD\<newline>content\<newline>~~~\<newline>Done.''"
    by (simp add: scenario_A_def render_def js_def LF_def doc_open_def fence_def)
  have pa: "trim (prose_of scenario_A) = js ''Here is your PRD.\<newline>\<newline>Done.''"
    by (simp add: scenario_A_def js_def trim_def is_ws_def)
  from clean_text_marker_free_iff_well_formed [of scenario_A fenced_twice] ha
  have "cleanText (parseDocumentBlocks (render scenario_A)) = trim (prose_of scenario_A)"
    by blast
  with pa have ca: "cleanText (parseDocumentBlocks (render scenario_A)) = js ''Here is your PRD.\<newline>\<newline>Done.''"
    by simp
  have h: "list_all well_formed_segment tilde_prose" "\<not> occurs_in doc_open (prose_of tilde_prose)"
    by (simp_all add: tilde_prose_def js_def LF_def tilde_def fence_def doc_open_def)
  have r: "render tilde_prose = js ''about ~5 users ~~~doc:PRD\<newline>X\<newline>~~~''"
    by (simp add: tilde_prose_def render_def js_def LF_def doc_open_def fence_def)
  have p: "trim (prose_of tilde_prose) = js ''about ~5 users''"
    by (simp add: tilde_prose_def js_def trim_def is_ws_def)
  have f: "\<not> occurs_in doc_open (cleanText (parseDocumentBlocks fenced_twice))"
    by (simp add: fenced_twice_def parser_defs)
  have u: "\<not> has_closed_block scenario_C" "occurs_in doc_open scenario_C"
    by (simp_all add: exec_all_Nil_iff [symmetric] scenario_C_def parser_defs)
  from clean_text_marker_free_iff_well_formed [of tilde_prose fenced_twice] h f
  have c: "cleanText (parseDocumentBlocks (render tilde_prose)) = trim (prose_of tilde_prose)"
    and d: "\<not> occurs_in doc_open (cleanText (parseDocumentBlocks (render tilde_prose)))"
    and e: "\<exists>segs. render segs = fenced_twice \<and> list_all well_formed_segment segs
              \<and> \<not> occurs_in doc_open (prose_of segs)"
    by blast+
  from clean_text_marker_free_iff_well_formed [of tilde_prose scenario_C] u
  have m: "occurs_in doc_open (cleanText (parseDocumentBlocks scenario_C))"
    by blast
  from c p have "cleanText (parseDocumentBlocks (render tilde_prose)) = js ''about ~5 users''"
    by simp
  with h r d f e u m ha ra ca show ?thesis
    by blast
qed

text \<open>
  The counterexample to C1 as written: the input \<^verbatim>\<open>Intro ~~~doc:PRD\n# Title\<close> has no closing
  fence, nothing is removed, and the clean text still contains \<^verbatim>\<open>~~~doc:\<close>.
\<close>

theorem unclosed_marker_stays_in_clean_text:
  "occurs_in doc_open (cleanText (parseDocumentBlocks unclosed_marker))"
  by (simp add: unclosed_marker_def parser_defs)

text \<open>
  Tildes in the prose matter as well: in \<^verbatim>\<open>~~~d~~~doc:A\nx~~~oc:B\ny~~~\<close> the only match is the
  block labelled \<^verbatim>\<open>A\<close>, and removing it joins the text before and after it into a new
  marker.
\<close>

lemma removal_can_join_a_marker:
  "exec_all joined_marker = [(js ''A'', js ''x'')]
   \<and> cleanText (parseDocumentBlocks joined_marker) = js ''~~~doc:B\<newline>y~~~''"
  by (simp add: joined_marker_def parser_defs)

subsection \<open>Input without a closed block\<close>

lemma own_keys_Nil: "own_keys [] = []"
  by (simp add: own_keys_def own_entries_def)

lemma parse_unclosed:
  assumes "\<not> has_closed_block text"
  shows "parseDocumentBlocks text = \<lparr>cleanText = trim text, parsed.documents = []\<rparr>"
proof -
  from assms have e: "exec_all text = []"
    by (simp add: exec_all_Nil_iff)
  from replace_all_unmatched [OF e] e show ?thesis
    by (simp add: parseDocumentBlocks_def)
qed

text \<open>
  Claim C2, as amended. For every input with no complete (closed) block,
  \<^verbatim>\<open>parseDocumentBlocks\<close> returns an empty \<^verbatim>\<open>documents\<close> mapping and a \<^verbatim>\<open>cleanText\<close> equal to the
  input with the white space at both ends removed. When such a stream is cancelled,
  \<^verbatim>\<open>handleStop\<close> merges no document and appends one assistant message whose content is the
  trimmed text (the raw text only when the trimmed text is empty).
\<close>

theorem unclosed_stream_trimmed_not_merged:
  "\<not> has_closed_block text \<Longrightarrow>
     parseDocumentBlocks text = \<lparr>cleanText = trim text, parsed.documents = []\<rparr>
     \<and> (session w = Some s \<and> streamingContent w = text \<and> text \<noteq> [] \<longrightarrow>
          session (handleStop uuid t_message t_messages t_docs w)
            = Some (s\<lparr>messages := messages s @
                         [\<lparr>ChatMessage.id' = uuid, role = Assistant,
                           ChatMessage.content = (if trim text \<noteq> [] then trim text else text),
                           ChatMessage.timestamp = t_message\<rparr>],
                       updatedAt := t_messages\<rparr>))"
proof -
  assume a: "\<not> has_closed_block text"
  note p = parse_unclosed [OF a]
  show ?thesis
    by (simp add: p handleStop_def handleMessagesUpdate_def own_keys_Nil Let_def)
qed

theorem unclosed_stream_trimmed_not_merged_witness:
  "\<not> has_closed_block scenario_C
   \<and> parseDocumentBlocks scenario_C
       = \<lparr>cleanText = js ''Summary text ~~~doc:Tech Spec\<newline># Spec'', parsed.documents = []\<rparr>
   \<and> session (handleStop (js ''id-1'') 2000 2001 2002 cancelled_world)
       = Some (sample_session\<lparr>messages :=
                 [\<lparr>ChatMessage.id' = js ''id-1'', role = Assistant,
                   ChatMessage.content = js ''Summary text ~~~doc:Tech Spec\<newline># Spec'',
                   ChatMessage.timestamp = 2000\<rparr>],
               updatedAt := 2001\<rparr>)"
proof -
  have h: "\<not> has_closed_block scenario_C"
    by (simp add: exec_all_Nil_iff [symmetric] scenario_C_def parser_defs)
  have t: "trim scenario_C = js ''Summary text ~~~doc:Tech Spec\<newline># Spec''"
    by (simp add: scenario_C_def js_def trim_def is_ws_def)
  have w: "session cancelled_world = Some sample_session"
    "streamingContent cancelled_world = scenario_C" "scenario_C \<noteq> []"
    "messages sample_session = []"
    by (simp_all add: cancelled_world_def sample_world_def sample_session_def scenario_C_def js_def)
  from unclosed_stream_trimmed_not_merged
    [OF h, of cancelled_world sample_session "js ''id-1''" 2000 2001 2002]
  show ?thesis
    using h by (simp add: t w js_def)
qed

text \<open>
  The counterexample to C2 as written: scenario C ends with a line break, which
  \<^verbatim>\<open>.trim()\<close> removes, so neither the \<^verbatim>\<open>cleanText\<close> nor the finalized assistant message equals
  the raw partial text.
\<close>

theorem cancelled_stream_is_not_kept_raw:
  "\<not> has_closed_block scenario_C
   \<and> cleanText (parseDocumentBlocks scenario_C) \<noteq> scenario_C
   \<and> map_option (\<lambda>s. map ChatMessage.content (messages s))
        (session (handleStop (js ''id-1'') 2000 2001 2002 cancelled_world))
       = Some [js ''Summary text ~~~doc:Tech Spec\<newline># Spec'']
   \<and> js ''Summary text ~~~doc:Tech Spec\<newline># Spec'' \<noteq> scenario_C"
proof -
  have h: "\<not> has_closed_block scenario_C"
    by (simp add: exec_all_Nil_iff [symmetric] scenario_C_def parser_defs)
  have c: "cleanText (parseDocumentBlocks scenario_C) = js ''Summary text ~~~doc:Tech Spec\<newline># Spec''"
    by (simp add: scenario_C_def parser_defs)
  have n: "js ''Summary text ~~~doc:Tech Spec\<newline># Spec'' \<noteq> scenario_C"
    by (simp add: scenario_C_def js_def)
  have d: "parsed.documents (parseDocumentBlocks scenario_C) = []"
    by (simp add: scenario_C_def parser_defs)
  have m: "map_option (\<lambda>s. map ChatMessage.content (messages s))
        (session (handleStop (js ''id-1'') 2000 2001 2002 cancelled_world))
       = Some [js ''Summary text ~~~doc:Tech Spec\<newline># Spec'']"
    by (simp add: handleStop_def handleMessagesUpdate_def cancelled_world_def
        sample_world_def sample_session_def c d own_keys_Nil Let_def)
      (simp add: scenario_C_def js_def)
  from h c n m show ?thesis
    by simp
qed

subsection \<open>Duplicate labels\<close>

lemma map_of_js_assign:
  "L \<noteq> proto_key \<Longrightarrow> map_of (js_assign obj k v) L = (if k = L then Some v else map_of obj L)"
  by (auto simp: js_assign_def update_conv')

lemma map_of_collected:
  "L \<noteq> proto_key \<Longrightarrow>
     map_of (foldl (\<lambda>docs (l, ct). js_assign docs (trim l) (trim ct)) obj ms) L =
       (case map_of (rev (map (\<lambda>(l, ct). (trim l, trim ct)) ms)) L of
          Some v \<Rightarrow> Some v
        | None \<Rightarrow> map_of obj L)"
proof (induction ms arbitrary: obj)
  case Nil
  then show ?case by simp
next
  case (Cons m ms)
  obtain l ct where m: "m = (l, ct)"
    by (cases m) auto
  show ?case
    using Cons.prems
    by (simp add: m Cons.IH [OF Cons.prems] map_of_js_assign map_add_def split: option.splits)
qed

text \<open>
  The last block of a label wins, for every label but \<^verbatim>\<open>__proto__\<close>: when the scan finds a
  block labelled \<open>l\<close> with content \<open>ct\<close> and no later block has the same trimmed label, the
  \<^verbatim>\<open>documents\<close> mapping binds the trimmed label to the trimmed content.
\<close>

lemma last_block_wins:
  assumes "exec_all text = before @ (l, ct) # after"
    and "trim l \<noteq> proto_key"
    and "trim l \<notin> set (map (\<lambda>(l', ct'). trim l') after)"
  shows "map_of (parsed.documents (parseDocumentBlocks text)) (trim l) = Some (trim ct)"
proof -
  let ?f = "\<lambda>(l, ct). (trim l, trim ct)"
  have "map_of (rev (map ?f after)) (trim l) = None"
    using assms(3) by (force simp: map_of_eq_None_iff image_iff)
  then have "map_of (rev (map ?f (before @ (l, ct) # after))) (trim l) = Some (trim ct)"
    by (simp add: map_add_def)
  with map_of_collected [OF assms(2), of "[]" "exec_all text"] show ?thesis
    by (simp add: parseDocumentBlocks_def assms(1))
qed

lemma prd_blocks_example:
  "parsed.documents (parseDocumentBlocks prd_blocks) = [(js ''PRD'', js ''B'')]"
  by (simp add: prd_blocks_def parser_defs)

text \<open>
  Claim C7. Of two closed blocks with the same trimmed label the later one should be
  bound to the label. The code does so for every label except \<^verbatim>\<open>__proto__\<close>
  (\<open>last_block_wins\<close>); for the input
  \<^verbatim>\<open>~~~doc:__proto__\nA\n~~~\n~~~doc:__proto__\nB\n~~~\<close> both blocks are matched and neither is
  bound: \<^verbatim>\<open>documents["__proto__"] = content\<close> on an object made by \<^verbatim>\<open>{}\<close> reaches the inherited
  setter, which ignores a string.
\<close>

theorem proto_label_is_never_bound:
  "exec_all proto_blocks = [(js ''__proto__'', js ''A\<newline>''), (js ''__proto__'', js ''B\<newline>'')]
   \<and> parsed.documents (parseDocumentBlocks proto_blocks) = []"
  by (simp add: proto_blocks_def parser_defs)

section \<open>Properties of the issues extractor\<close>

text \<open>
  Claim C8. \<^verbatim>\<open>parseIssuesFromResponse\<close> never raises: its result is always a value. When the
  interior of the \<^verbatim>\<open>~~~issues\<close> block is not parseable (\<^verbatim>\<open>JSON.parse\<close> raises) the result is
  the empty list, and so it is when there is no issues block.
\<close>

theorem malformed_issues_yield_empty_list:
  "(\<exists>v. parseIssuesFromResponse JSON_parse text = Inr v)
   \<and> (issues_match text = None \<longrightarrow> parseIssuesFromResponse JSON_parse text = Inr [])
   \<and> (issues_match text = Some interior \<and> JSON_parse interior = Inl e \<longrightarrow>
        parseIssuesFromResponse JSON_parse text = Inr [])"
  by (auto simp: parseIssuesFromResponse_def split: option.splits sum.splits)

lemmas issues_defs =
  issues_match_here_def issues_after_def issues_open_def fence_def js_def LF_def is_ws_def

theorem malformed_issues_yield_empty_list_witness:
  "issues_match malformed_report = Some (js ''NOT_JSON'')
   \<and> rejecting_parser (js ''NOT_JSON'') = Inl SyntaxError
   \<and> parseIssuesFromResponse rejecting_parser malformed_report = Inr []
   \<and> issues_match (js ''No block here.'') = None
   \<and> parseIssuesFromResponse rejecting_parser (js ''No block here.'') = Inr []"
proof -
  have m: "issues_match malformed_report = Some (js ''NOT_JSON'')"
    by (simp add: malformed_report_def issues_defs)
  have r: "rejecting_parser (js ''NOT_JSON'') = Inl SyntaxError"
    by (simp add: rejecting_parser_def js_def)
  have a: "issues_match (js ''No block here.'') = None"
    by (simp add: issues_defs)
  from malformed_issues_yield_empty_list [of rejecting_parser malformed_report "js ''NOT_JSON''" SyntaxError]
    malformed_issues_yield_empty_list [of rejecting_parser "js ''No block here.''"]
    m r a show ?thesis
    by blast
qed

section \<open>Properties of the document store\<close>

subsection \<open>Enumeration and the handlers' frames\<close>

lemmas sample_defs =
  sample_session_def sample_world_def ready_world_def sample_issue_def failing_server_def
  fixing_server_def sample_version_def five_versions_def

lemmas object_defs = own_keys_def own_entries_def array_index_def is_digit_def index_rank_def


lemma ready_remaining:
  "remaining (verifierState ready_world)
     = [sample_issue ''R-001'' Critical ''PRD'', sample_issue ''R-002'' Warning ''PRD'',
        sample_issue ''R-003'' Warning ''Design'']"
  by (simp add: remaining_def sample_defs js_def)

lemma sample_own_keys:
  "own_keys (Session.documents sample_session) = [js ''PRD'', js ''Design'']"
  by (simp add: sample_defs object_defs js_def)

lemma mset_own_entries: "mset (own_entries obj) = mset obj"
  by (simp add: own_entries_def)

lemma set_own_entries: "set (own_entries obj) = set obj"
  using mset_own_entries [of obj] by (metis set_mset_mset)

lemma length_own_entries: "length (own_entries obj) = length obj"
  using mset_own_entries [of obj] by (metis size_mset)

lemma distinct_own_keys:
  "distinct (map fst obj) \<Longrightarrow> distinct (own_keys obj)"
proof -
  assume d: "distinct (map fst obj)"
  have "mset (map fst (own_entries obj)) = mset (map fst obj)"
    by (simp add: mset_own_entries)
  with d show ?thesis
    unfolding own_keys_def by (metis mset_eq_imp_distinct_iff)
qed

lemma void_saveSession_frame:
  "session (void_saveSession u w) = session w"
  "verifierState (void_saveSession u w) = verifierState w"
  "sent (void_saveSession u w) = sent w"
  by (simp_all add: void_saveSession_def split: sum.splits)

lemma handleSnapshotVersions_session:
  "session (handleSnapshotVersions docs src now w) =
     map_option (\<lambda>prev. prev\<lparr>documentHistory := documentHistory prev @ newVersions docs src now,
                               updatedAt := now\<rparr>) (session w)"
  by (simp add: handleSnapshotVersions_def void_saveSession_frame Let_def split: option.splits)

lemma handleSnapshotVersions_frame:
  "verifierState (handleSnapshotVersions docs src now w) = verifierState w"
  "sent (handleSnapshotVersions docs src now w) = sent w"
  by (simp_all add: handleSnapshotVersions_def void_saveSession_frame Let_def split: option.splits)

lemma handleDocumentsUpdate_session:
  "session (handleDocumentsUpdate newDocs now w) =
     map_option (\<lambda>prev. prev\<lparr>documents := mergeDocs (Session.documents prev) newDocs,
                               updatedAt := now\<rparr>) (session w)"
  by (simp add: handleDocumentsUpdate_def void_saveSession_frame Let_def
      split: option.splits list.splits)

lemma handleDocumentsUpdate_frame:
  "verifierState (handleDocumentsUpdate newDocs now w) = verifierState w"
  "sent (handleDocumentsUpdate newDocs now w) = sent w"
  by (simp_all add: handleDocumentsUpdate_def void_saveSession_frame Let_def
      split: option.splits list.splits)

lemma newVersions_shape:
  "length (newVersions docs src now) = length docs"
  "map docType (newVersions docs src now) = own_keys docs"
  "map DocVersion.content (newVersions docs src now) = map snd (own_entries docs)"
  "list_all (\<lambda>v. source v = src \<and> DocVersion.timestamp v = now) (newVersions docs src now)"
  by (simp_all add: newVersions_def own_keys_def length_own_entries list_all_iff split_beta)

lemma applyAllFixes_history:
  assumes "session w = Some s" and "remaining (verifierState w) \<noteq> []"
  shows "map_option documentHistory (session (applyAllFixes server t_snapshot t_merge w)) =
           Some (documentHistory s @ newVersions (Session.documents s) Harmonized t_snapshot)"
  using assms
  by (simp add: applyAllFixes_def Let_def handleSnapshotVersions_session
      handleDocumentsUpdate_session option.map_comp comp_def split: response.splits)

subsection \<open>Snapshot, then merge\<close>

lemma map_of_js_assign_own:
  "L \<noteq> proto_key \<or> map_of obj L \<noteq> None \<Longrightarrow>
     map_of (js_assign obj k v) L = (if k = L then Some v else map_of obj L)"
  by (auto simp: js_assign_def update_conv')

lemma map_of_assign_all:
  "L \<noteq> proto_key \<or> map_of obj L \<noteq> None \<Longrightarrow>
     map_of (foldl (\<lambda>m (k, v). js_assign m k v) obj kvs) L =
       (case map_of (rev kvs) L of Some v \<Rightarrow> Some v | None \<Rightarrow> map_of obj L)"
proof (induction kvs arbitrary: obj)
  case Nil
  then show ?case by simp
next
  case (Cons kv kvs)
  obtain k v where kv: "kv = (k, v)"
    by (cases kv) auto
  have step: "map_of (js_assign obj k v) L = (if k = L then Some v else map_of obj L)"
    using map_of_js_assign_own [OF Cons.prems] .
  then have "L \<noteq> proto_key \<or> map_of (js_assign obj k v) L \<noteq> None"
    using Cons.prems by auto
  from Cons.IH [OF this] step show ?case
    by (simp add: kv map_add_def split: option.splits)
qed

lemma map_of_own_entries:
  "distinct (map fst obj) \<Longrightarrow> map_of (own_entries obj) = map_of obj"
proof
  fix k
  assume d: "distinct (map fst obj)"
  then have d': "distinct (map fst (own_entries obj))"
    using distinct_own_keys by (simp add: own_keys_def)
  show "map_of (own_entries obj) k = map_of obj k"
  proof (cases "map_of obj k")
    case None
    then have "k \<notin> fst ` set obj"
      by (simp add: map_of_eq_None_iff)
    then have "k \<notin> fst ` set (own_entries obj)"
      by (simp add: set_own_entries)
    then have "map_of (own_entries obj) k = None"
      by (simp add: map_of_eq_None_iff)
    with None show ?thesis
      by simp
  next
    case (Some v)
    then have "(k, v) \<in> set (own_entries obj)"
      by (simp add: set_own_entries map_of_SomeD)
    with d' Some show ?thesis
      by simp
  qed
qed

lemma map_of_rev_distinct:
  "distinct (map fst xs) \<Longrightarrow> map_of (rev xs) = map_of xs"
proof
  fix k
  assume d: "distinct (map fst xs)"
  then have d': "distinct (map fst (rev xs))"
    by (simp add: rev_map [symmetric])
  show "map_of (rev xs) k = map_of xs k"
  proof (cases "map_of xs k")
    case None
    then have "map_of (rev xs) k = None"
      by (simp add: map_of_eq_None_iff)
    with None show ?thesis
      by simp
  next
    case (Some v)
    then have "(k, v) \<in> set (rev xs)"
      by (simp add: map_of_SomeD)
    with d' Some show ?thesis
      by simp
  qed
qed

lemma map_of_mergeDocs:
  assumes "distinct (map fst prevDocs)" and "distinct (map fst newDocs)"
    and "L \<noteq> proto_key \<or> map_of prevDocs L \<noteq> None"
  shows "map_of (mergeDocs prevDocs newDocs) L =
           (case map_of newDocs L of Some v \<Rightarrow> Some v | None \<Rightarrow> map_of prevDocs L)"
proof -
  have d: "distinct (map fst (own_entries newDocs))"
    using distinct_own_keys [OF assms(2)] by (simp add: own_keys_def)
  have "L \<noteq> proto_key \<or> map_of (own_entries prevDocs) L \<noteq> None"
    using assms(3) by (simp add: map_of_own_entries [OF assms(1)])
  from map_of_assign_all [OF this, of "own_entries newDocs"] show ?thesis
    by (simp add: mergeDocs_def map_of_rev_distinct [OF d] map_of_own_entries [OF assms(1)]
        map_of_own_entries [OF assms(2)] split: option.splits)
qed

lemma versions_of_key:
  "distinct (map fst es) \<Longrightarrow> (K, A) \<in> set es \<Longrightarrow>
     filter (\<lambda>v. docType v = K)
       (map (\<lambda>(dt, ct). \<lparr>docType = dt, DocVersion.content = ct, DocVersion.timestamp = now, source = src\<rparr>) es)
     = [\<lparr>docType = K, DocVersion.content = A, DocVersion.timestamp = now, source = src\<rparr>]"
proof (induction es)
  case Nil
  then show ?case by simp
next
  case (Cons e es)
  obtain k a where e: "e = (k, a)"
    by (cases e) auto
  show ?case
  proof (cases "k = K")
    case True
    with Cons.prems e have "a = A" and "K \<notin> fst ` set es"
      by (auto simp: image_iff)
    then have "filter (\<lambda>v. docType v = K)
       (map (\<lambda>(dt, ct). \<lparr>docType = dt, DocVersion.content = ct, DocVersion.timestamp = now, source = src\<rparr>) es) = []"
      by (auto simp: filter_empty_conv image_iff)
    with True e \<open>a = A\<close> show ?thesis
      by simp
  next
    case False
    with Cons e show ?thesis
      by auto
  qed
qed

text \<open>
  Claim C4. A document of the store has content \<open>A\<close> under the key \<open>K\<close>. A snapshot with
  source \<^verbatim>\<open>edited\<close> is taken of documents that hold it (the whole store, or this document
  alone), then documents that bind \<open>K\<close> to \<open>B\<close> are merged.
  Afterwards the history of \<open>K\<close> is the old one followed by one version with content \<open>A\<close> and
  source \<^verbatim>\<open>edited\<close>, which is therefore the most recent version of \<open>K\<close> (the history is
  append-only), and the live value of \<open>K\<close> is \<open>B\<close>.
\<close>

theorem snapshot_then_merge:
  assumes "session w = Some s"
    and "distinct (map fst (Session.documents s))" and "map_of (Session.documents s) K = Some A"
    and "distinct (map fst docs)" and "map_of docs K = Some A"
    and "distinct (map fst newDocs)" and "map_of newDocs K = Some B"
  shows "\<exists>s'. session (handleDocumentsUpdate newDocs t_merge
                  (handleSnapshotVersions docs Edited t_snapshot w)) = Some s'
           \<and> filter (\<lambda>v. docType v = K) (documentHistory s')
               = filter (\<lambda>v. docType v = K) (documentHistory s)
                 @ [\<lparr>docType = K, DocVersion.content = A, DocVersion.timestamp = t_snapshot, source = Edited\<rparr>]
           \<and> last (filter (\<lambda>v. docType v = K) (documentHistory s'))
               = \<lparr>docType = K, DocVersion.content = A, DocVersion.timestamp = t_snapshot, source = Edited\<rparr>
           \<and> map_of (Session.documents s') K = Some B"
proof -
  let ?s' = "s\<lparr>documentHistory := documentHistory s @ newVersions docs Edited t_snapshot,
              updatedAt := t_snapshot,
              documents := mergeDocs (Session.documents s) newDocs, updatedAt := t_merge\<rparr>"
  let ?v = "\<lparr>docType = K, DocVersion.content = A, DocVersion.timestamp = t_snapshot, source = Edited\<rparr>"
  have s': "session (handleDocumentsUpdate newDocs t_merge
                  (handleSnapshotVersions docs Edited t_snapshot w)) = Some ?s'"
    by (simp add: handleDocumentsUpdate_session handleSnapshotVersions_session assms(1))
  have "(K, A) \<in> set (own_entries docs)"
    using assms(5) by (simp add: set_own_entries map_of_SomeD)
  moreover have "distinct (map fst (own_entries docs))"
    using distinct_own_keys [OF assms(4)] by (simp add: own_keys_def)
  ultimately have f: "filter (\<lambda>v. docType v = K) (newVersions docs Edited t_snapshot) = [?v]"
    unfolding newVersions_def by (rule versions_of_key [rotated])
  then have h: "filter (\<lambda>v. docType v = K) (documentHistory ?s')
                = filter (\<lambda>v. docType v = K) (documentHistory s) @ [?v]"
    by simp
  have m: "map_of (Session.documents ?s') K = Some B"
    using map_of_mergeDocs [OF assms(2) assms(6), of K] assms(3,7) by simp
  from s' h m show ?thesis
    by (metis last_snoc)
qed

theorem snapshot_then_merge_witness:
  "session sample_world = Some sample_session
   \<and> distinct (map fst (Session.documents sample_session))
   \<and> map_of (Session.documents sample_session) (js ''PRD'') = Some (js ''v1'')
   \<and> (\<exists>s'. session (handleDocumentsUpdate [(js ''PRD'', js ''v2'')] 4001
                 (handleSnapshotVersions (Session.documents sample_session) Edited 4000 sample_world))
               = Some s'
         \<and> last (filter (\<lambda>v. docType v = js ''PRD'') (documentHistory s'))
             = \<lparr>docType = js ''PRD'', DocVersion.content = js ''v1'', DocVersion.timestamp = 4000,
                source = Edited\<rparr>
         \<and> map_of (Session.documents s') (js ''PRD'') = Some (js ''v2''))"
proof -
  have h1: "session sample_world = Some sample_session"
    by (simp add: sample_defs)
  have h2: "distinct (map fst (Session.documents sample_session))"
    by (simp add: sample_defs js_def)
  have h3: "map_of (Session.documents sample_session) (js ''PRD'') = Some (js ''v1'')"
    by (simp add: sample_defs js_def)
  have h4: "distinct (map fst [(js ''PRD'', js ''v2'')])"
    by simp
  have h5: "map_of [(js ''PRD'', js ''v2'')] (js ''PRD'') = Some (js ''v2'')"
    by simp
  from snapshot_then_merge [OF h1 h2 h3 h2 h3 h4 h5, of 4001 4000] h1 h2 h3 show ?thesis
    by blast
qed

section \<open>Properties of apply-all\<close>

text \<open>
  Claim C3. One call of apply-all with something to fix (at least one outstanding issue
  that is not of severity \<^verbatim>\<open>info\<close>; without one the call does nothing, see C10) appends to
  the history exactly one new version per document of the store, with the document's key
  and content and the source \<^verbatim>\<open>harmonized\<close>, whatever the number of issues and whatever
  the service answers.
\<close>

theorem apply_all_snapshots_once:
  assumes "session w = Some s" and "remaining (verifierState w) \<noteq> []"
  shows "\<exists>added.
           map_option documentHistory (session (applyAllFixes server t_snapshot t_merge w))
             = Some (documentHistory s @ added)
           \<and> length added = length (own_keys (Session.documents s))
           \<and> map docType added = own_keys (Session.documents s)
           \<and> map DocVersion.content added = map snd (own_entries (Session.documents s))
           \<and> list_all (\<lambda>v. source v = Harmonized) added
           \<and> (distinct (map fst (Session.documents s)) \<longrightarrow> distinct (map docType added))"
proof -
  let ?added = "newVersions (Session.documents s) Harmonized t_snapshot"
  have "map_option documentHistory (session (applyAllFixes server t_snapshot t_merge w))
          = Some (documentHistory s @ ?added)"
    using applyAllFixes_history [OF assms] .
  moreover have "length ?added = length (own_keys (Session.documents s))"
    by (simp add: newVersions_shape own_keys_def length_own_entries)
  moreover have "map docType ?added = own_keys (Session.documents s)"
    by (simp add: newVersions_shape)
  moreover have "map DocVersion.content ?added = map snd (own_entries (Session.documents s))"
    by (simp add: newVersions_shape)
  moreover have "list_all (\<lambda>v. source v = Harmonized) ?added"
    using newVersions_shape(4) [of Harmonized t_snapshot "Session.documents s"]
    by (simp add: list_all_iff)
  moreover have "distinct (map fst (Session.documents s)) \<longrightarrow> distinct (map docType ?added)"
    by (simp add: newVersions_shape distinct_own_keys)
  ultimately show ?thesis
    by blast
qed

theorem apply_all_snapshots_once_witness:
  "session ready_world = Some sample_session
   \<and> length (remaining (verifierState ready_world)) = 3
   \<and> map targetDoc (remaining (verifierState ready_world)) = [js ''PRD'', js ''PRD'', js ''Design'']
   \<and> own_keys (Session.documents sample_session) = [js ''PRD'', js ''Design'']
   \<and> (\<exists>added.
         map_option documentHistory (session (applyAllFixes fixing_server 3000 3001 ready_world))
           = Some (documentHistory sample_session @ added)
         \<and> length added = 2
         \<and> map docType added = [js ''PRD'', js ''Design'']
         \<and> list_all (\<lambda>v. source v = Harmonized) added)"
proof -
  have h1: "session ready_world = Some sample_session"
    by (simp add: sample_defs)
  have h2: "remaining (verifierState ready_world) \<noteq> []"
    by (simp add: ready_remaining)
  have h3: "length (remaining (verifierState ready_world)) = 3"
    "map targetDoc (remaining (verifierState ready_world)) = [js ''PRD'', js ''PRD'', js ''Design'']"
    by (simp_all add: ready_remaining sample_issue_def)
  from apply_all_snapshots_once [OF h1 h2, of fixing_server 3000 3001] h1 h3 sample_own_keys
  show ?thesis
    by auto
qed

text \<open>
  Claim C6. When the harmonize request of apply-all fails (the fetch is rejected, the
  status is not ok or a read of the stream fails), the verifier state is the state at the
  call with the phase \<^verbatim>\<open>ready\<close>: issues, summary, dismissed and applied ids are unchanged.
\<close>

theorem failed_harmonize_keeps_report:
  assumes "session w = Some s" and "remaining (verifierState w) \<noteq> []"
    and "failed (server (harmonize_all_request (Session.documents s) (remaining (verifierState w))))"
  shows "verifierState (applyAllFixes server t_snapshot t_merge w) = (verifierState w)\<lparr>phase := Ready\<rparr>
       \<and> phase (verifierState (applyAllFixes server t_snapshot t_merge w)) = Ready
       \<and> issues (verifierState (applyAllFixes server t_snapshot t_merge w)) = issues (verifierState w)
       \<and> summary (verifierState (applyAllFixes server t_snapshot t_merge w)) = summary (verifierState w)
       \<and> dismissed (verifierState (applyAllFixes server t_snapshot t_merge w)) = dismissed (verifierState w)
       \<and> applied (verifierState (applyAllFixes server t_snapshot t_merge w)) = applied (verifierState w)"
proof -
  have "verifierState (applyAllFixes server t_snapshot t_merge w) = (verifierState w)\<lparr>phase := Ready\<rparr>"
    using assms
    by (simp add: applyAllFixes_def Let_def failed_def split: response.splits)
  then show ?thesis
    by simp
qed

theorem failed_harmonize_keeps_report_witness:
  "session ready_world = Some sample_session
   \<and> remaining (verifierState ready_world) \<noteq> []
   \<and> failed (failing_server (harmonize_all_request (Session.documents sample_session)
                (remaining (verifierState ready_world))))
   \<and> verifierState (applyAllFixes failing_server 3000 3001 ready_world) = verifierState ready_world
   \<and> phase (verifierState (applyAllFixes failing_server 3000 3001 ready_world)) = Ready
   \<and> length (issues (verifierState (applyAllFixes failing_server 3000 3001 ready_world))) = 4"
proof -
  have h1: "session ready_world = Some sample_session"
    by (simp add: sample_defs)
  have h2: "remaining (verifierState ready_world) \<noteq> []"
    by (simp add: ready_remaining)
  have h3: "failed (failing_server (harmonize_all_request (Session.documents sample_session)
                (remaining (verifierState ready_world))))"
    by (simp add: failing_server_def failed_def)
  have p: "(verifierState ready_world)\<lparr>phase := Ready\<rparr> = verifierState ready_world"
    "length (issues (verifierState ready_world)) = 4"
    "phase (verifierState ready_world) = Ready"
    by (simp_all add: ready_world_def)
  from failed_harmonize_keeps_report
    [where w = ready_world and s = sample_session and server = failing_server
       and t_snapshot = 3000 and t_merge = 3001, OF h1 h2 h3]
    h1 h2 h3 p show ?thesis
    by simp
qed

lemma info_ids_not_taken:
  assumes "distinct (map VerifierIssue.id' (issues vs))"
    and "i \<in> set (issues vs)" and "severity i = Info"
  shows "VerifierIssue.id' i \<notin> set (map VerifierIssue.id' (remaining vs))"
proof
  assume "VerifierIssue.id' i \<in> set (map VerifierIssue.id' (remaining vs))"
  then obtain j where j: "j \<in> set (remaining vs)" and e: "VerifierIssue.id' j = VerifierIssue.id' i"
    by auto
  from j have ji: "j \<in> set (issues vs)" and ns: "severity j \<noteq> Info"
    by (simp_all add: remaining_def)
  from assms(1) have "inj_on VerifierIssue.id' (set (issues vs))"
    by (simp add: distinct_map)
  with ji assms(2) e have "j = i"
    by (auto dest: inj_onD)
  with ns assms(3) show False
    by simp
qed

lemma applyAllFixes_applied:
  assumes "session w = Some s" and "remaining (verifierState w) \<noteq> []"
  shows "applied (verifierState (applyAllFixes server t_snapshot t_merge w))
          = (if failed (server (harmonize_all_request (Session.documents s) (remaining (verifierState w))))
             then applied (verifierState w)
             else applied (verifierState w) @ map VerifierIssue.id' (remaining (verifierState w)))"
  using assms
  by (cases "server (harmonize_all_request (Session.documents s) (remaining (verifierState w)))")
    (simp_all add: applyAllFixes_def Let_def failed_def)

lemma shared_id_remaining:
  "remaining (verifierState shared_id_world) = [sample_issue ''R-001'' Warning ''PRD'']"
  by (simp add: remaining_def shared_id_world_def sample_issue_def)

lemma info_id_taken_iff:
  "VerifierIssue.id' i \<in> set (map VerifierIssue.id' (remaining vs)) \<longleftrightarrow>
     (\<exists>j\<in>set (issues vs). VerifierIssue.id' j = VerifierIssue.id' i \<and> severity j \<noteq> Info
        \<and> VerifierIssue.id' j \<notin> set (dismissed vs) \<and> VerifierIssue.id' j \<notin> set (applied vs))"
proof
  assume "VerifierIssue.id' i \<in> set (map VerifierIssue.id' (remaining vs))"
  then obtain j where "j \<in> set (remaining vs)" "VerifierIssue.id' j = VerifierIssue.id' i"
    by auto
  then show "\<exists>j\<in>set (issues vs). VerifierIssue.id' j = VerifierIssue.id' i \<and> severity j \<noteq> Info
        \<and> VerifierIssue.id' j \<notin> set (dismissed vs) \<and> VerifierIssue.id' j \<notin> set (applied vs)"
    by (auto simp: remaining_def)
next
  assume "\<exists>j\<in>set (issues vs). VerifierIssue.id' j = VerifierIssue.id' i \<and> severity j \<noteq> Info
        \<and> VerifierIssue.id' j \<notin> set (dismissed vs) \<and> VerifierIssue.id' j \<notin> set (applied vs)"
  then obtain j where j: "j \<in> set (issues vs)" "VerifierIssue.id' j = VerifierIssue.id' i"
    "severity j \<noteq> Info" "VerifierIssue.id' j \<notin> set (dismissed vs)"
    "VerifierIssue.id' j \<notin> set (applied vs)"
    by blast
  then have "j \<in> set (remaining vs)"
    by (simp add: remaining_def)
  with j(2) show "VerifierIssue.id' i \<in> set (map VerifierIssue.id' (remaining vs))"
    by (metis image_eqI set_map)
qed

text \<open>
  Claim C10, as amended. Apply-all works on the outstanding issues only: every issue it
  takes is neither dismissed nor applied nor of severity \<^verbatim>\<open>info\<close>. With none it returns at
  once: the state is unchanged, so nothing is requested and nothing is snapshot. Otherwise
  it sends one request, whose report is the header followed by the lines of exactly those
  issues, and on success the ids appended to the applied ids are exactly theirs (on
  failure none). Issues are identified by their ids: the id of an issue of severity
  \<^verbatim>\<open>info\<close> is among the ids appended exactly when an outstanding issue of another severity
  bears the same id, hence never when the ids of the report are distinct.
\<close>

theorem apply_all_skips_info_dismissed_applied:
  "list_all (\<lambda>i. severity i \<noteq> Info
              \<and> VerifierIssue.id' i \<notin> set (dismissed (verifierState w))
              \<and> VerifierIssue.id' i \<notin> set (applied (verifierState w))
              \<and> i \<in> set (issues (verifierState w)))
     (remaining (verifierState w))
   \<and> (remaining (verifierState w) = [] \<longrightarrow> applyAllFixes server t_snapshot t_merge w = w)
   \<and> (session w = Some s \<and> remaining (verifierState w) \<noteq> [] \<longrightarrow>
        sent (applyAllFixes server t_snapshot t_merge w)
          = sent w @ [harmonize_all_request (Session.documents s) (remaining (verifierState w))]
        \<and> report (harmonize_all_request (Session.documents s) (remaining (verifierState w)))
          = js ''Fix ALL of the following issues:\<newline>\<newline>''
            @ join (js ''\<newline>\<newline>'') (map issue_line (remaining (verifierState w)))
        \<and> applied (verifierState (applyAllFixes server t_snapshot t_merge w))
          = (if failed (server (harmonize_all_request (Session.documents s)
                                  (remaining (verifierState w))))
             then applied (verifierState w)
             else applied (verifierState w)
                  @ map VerifierIssue.id' (remaining (verifierState w))))
   \<and> (\<forall>i\<in>set (issues (verifierState w)). severity i = Info \<longrightarrow>
        (VerifierIssue.id' i \<in> set (map VerifierIssue.id' (remaining (verifierState w))) \<longleftrightarrow>
           (\<exists>j\<in>set (issues (verifierState w)).
               VerifierIssue.id' j = VerifierIssue.id' i \<and> severity j \<noteq> Info
               \<and> VerifierIssue.id' j \<notin> set (dismissed (verifierState w))
               \<and> VerifierIssue.id' j \<notin> set (applied (verifierState w)))))
   \<and> (distinct (map VerifierIssue.id' (issues (verifierState w))) \<longrightarrow>
        (\<forall>i\<in>set (issues (verifierState w)). severity i = Info \<longrightarrow>
           VerifierIssue.id' i \<notin> set (map VerifierIssue.id' (remaining (verifierState w)))))"
proof -
  let ?rem = "remaining (verifierState w)"
  let ?req = "harmonize_all_request (Session.documents s) ?rem"
  have a: "list_all (\<lambda>i. severity i \<noteq> Info
              \<and> VerifierIssue.id' i \<notin> set (dismissed (verifierState w))
              \<and> VerifierIssue.id' i \<notin> set (applied (verifierState w))
              \<and> i \<in> set (issues (verifierState w))) ?rem"
    by (auto simp: remaining_def list_all_iff)
  have b: "?rem = [] \<longrightarrow> applyAllFixes server t_snapshot t_merge w = w"
    by (simp add: applyAllFixes_def Let_def split: option.splits)
  have c: "sent (applyAllFixes server t_snapshot t_merge w) = sent w @ [?req]"
    if "session w = Some s" "?rem \<noteq> []"
    using that
    by (simp add: applyAllFixes_def Let_def handleSnapshotVersions_frame handleDocumentsUpdate_frame
        split: response.splits)
  have d: "report ?req = js ''Fix ALL of the following issues:\<newline>\<newline>''
            @ join (js ''\<newline>\<newline>'') (map issue_line ?rem)"
    by (simp add: harmonize_all_request_def issuesText_def)
  have e: "applied (verifierState (applyAllFixes server t_snapshot t_merge w))
          = (if failed (server ?req) then applied (verifierState w)
             else applied (verifierState w) @ map VerifierIssue.id' ?rem)"
    if "session w = Some s" "?rem \<noteq> []"
    using that by (rule applyAllFixes_applied)
  have g: "\<forall>i\<in>set (issues (verifierState w)). severity i = Info \<longrightarrow>
        (VerifierIssue.id' i \<in> set (map VerifierIssue.id' ?rem) \<longleftrightarrow>
           (\<exists>j\<in>set (issues (verifierState w)).
               VerifierIssue.id' j = VerifierIssue.id' i \<and> severity j \<noteq> Info
               \<and> VerifierIssue.id' j \<notin> set (dismissed (verifierState w))
               \<and> VerifierIssue.id' j \<notin> set (applied (verifierState w))))"
    using info_id_taken_iff by blast
  have f: "distinct (map VerifierIssue.id' (issues (verifierState w))) \<longrightarrow>
        (\<forall>i\<in>set (issues (verifierState w)). severity i = Info \<longrightarrow>
           VerifierIssue.id' i \<notin> set (map VerifierIssue.id' ?rem))"
    using info_ids_not_taken by blast
  from a b c d e g f show ?thesis
    by blast
qed

theorem apply_all_skips_info_dismissed_applied_witness:
  "map VerifierIssue.id' (remaining (verifierState ready_world)) = [js ''R-001'', js ''R-002'', js ''R-003'']
   \<and> list_all (\<lambda>i. severity i \<noteq> Info) (remaining (verifierState ready_world))
   \<and> length (sent (applyAllFixes fixing_server 3000 3001 ready_world)) = 1
   \<and> applied (verifierState (applyAllFixes fixing_server 3000 3001 ready_world))
       = [js ''R-001'', js ''R-002'', js ''R-003'']
   \<and> js ''R-004'' \<notin> set (applied (verifierState (applyAllFixes fixing_server 3000 3001 ready_world)))
   \<and> remaining (verifierState sample_world) = []
   \<and> applyAllFixes fixing_server 3000 3001 sample_world = sample_world
   \<and> distinct (map VerifierIssue.id' (issues (verifierState ready_world)))
   \<and> sample_issue ''R-004'' Info ''Design'' \<in> set (issues (verifierState ready_world))
   \<and> VerifierIssue.id' (sample_issue ''R-004'' Info ''Design'')
       \<notin> set (map VerifierIssue.id' (remaining (verifierState ready_world)))
   \<and> sample_issue ''R-001'' Info ''Design'' \<in> set (issues (verifierState shared_id_world))
   \<and> VerifierIssue.id' (sample_issue ''R-001'' Info ''Design'')
       \<in> set (map VerifierIssue.id' (remaining (verifierState shared_id_world)))"
proof -
  have h1: "session ready_world = Some sample_session"
    by (simp add: sample_defs)
  have h2: "remaining (verifierState ready_world) \<noteq> []"
    by (simp add: ready_remaining)
  have ids: "map VerifierIssue.id' (remaining (verifierState ready_world)) = [js ''R-001'', js ''R-002'', js ''R-003'']"
    by (simp add: ready_remaining sample_issue_def)
  have e: "remaining (verifierState sample_world) = []"
    by (simp add: remaining_def sample_world_def INITIAL_VERIFIER_STATE_def)
  have s: "sent ready_world = []" "applied (verifierState ready_world) = []"
    by (simp_all add: sample_defs)
  have f: "\<not> failed (fixing_server (harmonize_all_request (Session.documents sample_session)
                (remaining (verifierState ready_world))))"
    by (simp add: fixing_server_def failed_def)
  have dd: "distinct (map VerifierIssue.id' (issues (verifierState ready_world)))"
    by (simp add: sample_defs js_def)
  have i4: "sample_issue ''R-004'' Info ''Design'' \<in> set (issues (verifierState ready_world))"
    "severity (sample_issue ''R-004'' Info ''Design'') = Info"
    by (simp_all add: sample_defs)
  have i1: "sample_issue ''R-001'' Info ''Design'' \<in> set (issues (verifierState shared_id_world))"
    "severity (sample_issue ''R-001'' Info ''Design'') = Info"
    "sample_issue ''R-001'' Warning ''PRD'' \<in> set (issues (verifierState shared_id_world))"
    "VerifierIssue.id' (sample_issue ''R-001'' Warning ''PRD'') = VerifierIssue.id' (sample_issue ''R-001'' Info ''Design'')"
    "severity (sample_issue ''R-001'' Warning ''PRD'') \<noteq> Info"
    "VerifierIssue.id' (sample_issue ''R-001'' Warning ''PRD'') \<notin> set (dismissed (verifierState shared_id_world))"
    "VerifierIssue.id' (sample_issue ''R-001'' Warning ''PRD'') \<notin> set (applied (verifierState shared_id_world))"
    by (simp_all add: shared_id_world_def sample_issue_def)
  from apply_all_skips_info_dismissed_applied [of ready_world fixing_server 3000 3001 sample_session] dd i4
  have n4: "VerifierIssue.id' (sample_issue ''R-004'' Info ''Design'')
       \<notin> set (map VerifierIssue.id' (remaining (verifierState ready_world)))"
    by blast
  from apply_all_skips_info_dismissed_applied [of shared_id_world fixing_server 3000 3001 sample_session] i1
  have n1: "VerifierIssue.id' (sample_issue ''R-001'' Info ''Design'')
       \<in> set (map VerifierIssue.id' (remaining (verifierState shared_id_world)))"
    by blast
  from apply_all_skips_info_dismissed_applied [of ready_world fixing_server 3000 3001 sample_session]
    apply_all_skips_info_dismissed_applied [of sample_world fixing_server 3000 3001 sample_session]
    h1 h2 ids e s f
  have "map VerifierIssue.id' (remaining (verifierState ready_world)) = [js ''R-001'', js ''R-002'', js ''R-003'']
   \<and> list_all (\<lambda>i. severity i \<noteq> Info) (remaining (verifierState ready_world))
   \<and> length (sent (applyAllFixes fixing_server 3000 3001 ready_world)) = 1
   \<and> applied (verifierState (applyAllFixes fixing_server 3000 3001 ready_world))
       = [js ''R-001'', js ''R-002'', js ''R-003'']
   \<and> js ''R-004'' \<notin> set (applied (verifierState (applyAllFixes fixing_server 3000 3001 ready_world)))
   \<and> remaining (verifierState sample_world) = []
   \<and> applyAllFixes fixing_server 3000 3001 sample_world = sample_world"
    by (simp add: list_all_iff js_def)
  with dd i4(1) n4 i1(1) n1 show ?thesis
    by blast
qed

text \<open>
  The counterexample to C10 as written: in a report whose issues \<^verbatim>\<open>R-001\<close> (\<^verbatim>\<open>warning\<close>) and
  \<^verbatim>\<open>R-001\<close> (\<^verbatim>\<open>info\<close>) share their id, apply-all appends \<^verbatim>\<open>R-001\<close> to the applied ids, which is
  the id of the issue of severity \<^verbatim>\<open>info\<close>; the panel then shows that issue as applied
  (\<^verbatim>\<open>isApplied={applied.has(issue.id)}\<close>).
\<close>

theorem shared_id_marks_info_issue_applied:
  "sample_issue ''R-001'' Info ''Design'' \<in> set (issues (verifierState shared_id_world))
   \<and> severity (sample_issue ''R-001'' Info ''Design'') = Info
   \<and> VerifierIssue.id' (sample_issue ''R-001'' Info ''Design'')
       \<notin> set (applied (verifierState shared_id_world))
   \<and> VerifierIssue.id' (sample_issue ''R-001'' Info ''Design'')
       \<in> set (applied (verifierState (applyAllFixes fixing_server 3000 3001 shared_id_world)))"
proof -
  have h: "session shared_id_world = Some sample_session"
    "remaining (verifierState shared_id_world) \<noteq> []"
    by (simp_all add: shared_id_remaining) (simp add: shared_id_world_def sample_world_def)
  have "applied (verifierState (applyAllFixes fixing_server 3000 3001 shared_id_world)) = [js ''R-001'']"
    using applyAllFixes_applied [where server = fixing_server, OF h]
    by (simp add: shared_id_remaining fixing_server_def failed_def)
      (simp add: shared_id_world_def sample_issue_def)
  then show ?thesis
    by (simp add: shared_id_world_def sample_issue_def)
qed

section \<open>Properties of persistence\<close>

lemma versions_of_snoc:
  "versions_of k (p @ [v]) = (if docType v = k then versions_of k p @ [v] else versions_of k p)"
  by (simp add: versions_of_def)

lemma push_version_grouped:
  assumes "grouped g p" and "push_version g v = Inr g'"
  shows "grouped g' (p @ [v])"
proof (cases "map_of g (docType v)")
  case None
  with assms(2) have g': "g' = g @ [(docType v, [v])]"
    by (simp add: push_version_def split: if_splits)
  from None have nk: "docType v \<notin> fst ` set g"
    by (simp add: map_of_eq_None_iff)
  from None assms(1) have e: "versions_of (docType v) p = []"
    by (auto simp: grouped_def split: if_splits)
  have "distinct (map fst g')"
    using assms(1) nk by (simp add: g' grouped_def)
  moreover have "map_of g' k =
      (if versions_of k (p @ [v]) = [] then None else Some (versions_of k (p @ [v])))" for k
    using assms(1) e by (auto simp: g' grouped_def map_add_def versions_of_snoc split: option.splits)
  ultimately show ?thesis
    by (simp add: grouped_def)
next
  case (Some xs)
  with assms(2) have g': "g' = AList.update (docType v) (xs @ [v]) g"
    by (simp add: push_version_def)
  from Some assms(1) have xs: "versions_of (docType v) p = xs"
    by (auto simp: grouped_def split: if_splits)
  have "distinct (map fst g')"
    using assms(1) by (simp add: g' grouped_def distinct_update)
  moreover have "map_of g' k =
      (if versions_of k (p @ [v]) = [] then None else Some (versions_of k (p @ [v])))" for k
    using assms(1) xs by (auto simp: g' grouped_def update_conv' versions_of_snoc)
  ultimately show ?thesis
    by (simp add: grouped_def)
qed

lemma group_versions_grouped:
  "grouped g p \<Longrightarrow> group_versions g vs = Inr g' \<Longrightarrow> grouped g' (p @ vs)"
proof (induction vs arbitrary: g p)
  case Nil
  then show ?case by simp
next
  case (Cons v vs)
  from Cons.prems(2) obtain g1 where p1: "push_version g v = Inr g1"
    and r: "group_versions g1 vs = Inr g'"
    by (auto split: sum.splits)
  from Cons.IH [OF push_version_grouped [OF Cons.prems(1) p1] r] show ?case
    by simp
qed

lemma grouped_Nil: "grouped [] []"
  by (simp add: grouped_def versions_of_def)

lemma concat_select:
  "distinct (map fst es) \<Longrightarrow>
     concat (map (\<lambda>e. if fst e = d then F (snd e) else []) es)
       = (case map_of es d of None \<Rightarrow> [] | Some xs \<Rightarrow> F xs)"
proof (induction es)
  case Nil
  then show ?case by simp
next
  case (Cons e es)
  show ?case
  proof (cases "fst e = d")
    case True
    with Cons.prems have "d \<notin> fst ` set es"
      by auto
    then have "concat (map (\<lambda>e. if fst e = d then F (snd e) else []) es) = []"
      by (auto simp: image_iff)
    with True show ?thesis
      by (cases e) simp
  next
    case False
    with Cons show ?thesis
      by (cases e) auto
  qed
qed

lemma versions_of_recent:
  assumes "set xs \<subseteq> {v. docType v = k}"
  shows "versions_of d (take n (sort_newest_first xs)) = (if k = d then take n (sort_newest_first xs) else [])"
proof -
  have "set (take n (sort_newest_first xs)) \<subseteq> {v. docType v = k}"
    using assms set_take_subset [of n "sort_newest_first xs"] by (auto simp: sort_newest_first_def)
  then show ?thesis
    by (auto simp: versions_of_def filter_empty_conv filter_id_conv)
qed

lemma versions_of_keep_recent:
  assumes "grouped g history"
  shows "versions_of d (keep_recent g)
           = take MAX_VERSIONS_PER_DOC (sort_newest_first (versions_of d history))"
proof -
  let ?F = "\<lambda>xs. take MAX_VERSIONS_PER_DOC (sort_newest_first xs)"
  let ?es = "own_entries g"
  from assms have dg: "distinct (map fst g)"
    and mg: "\<And>k. map_of g k = (if versions_of k history = [] then None else Some (versions_of k history))"
    by (simp_all add: grouped_def)
  have mset_es: "mset ?es = mset g"
    by (simp add: own_entries_def)
  then have set_es: "set ?es = set g"
    by (metis set_mset_mset)
  have "mset (map fst ?es) = mset (map fst g)"
    by (simp add: mset_es)
  with dg have des: "distinct (map fst ?es)"
    by (metis mset_eq_imp_distinct_iff)
  have each: "versions_of d (?F (snd e)) = (if fst e = d then ?F (snd e) else [])" if "e \<in> set ?es" for e
  proof -
    from that set_es have "(fst e, snd e) \<in> set g"
      by simp
    with dg have "map_of g (fst e) = Some (snd e)"
      by (simp only: map_of_eq_Some_iff)
    with mg [of "fst e"] have "snd e = versions_of (fst e) history"
      by (simp split: if_splits)
    then have "set (snd e) \<subseteq> {v. docType v = fst e}"
      by (auto simp: versions_of_def)
    from versions_of_recent [OF this] show ?thesis .
  qed
  have "versions_of d (keep_recent g) = concat (map (\<lambda>e. versions_of d (?F (snd e))) ?es)"
    by (simp add: keep_recent_def versions_of_def filter_concat comp_def)
  also have "\<dots> = concat (map (\<lambda>e. if fst e = d then ?F (snd e) else []) ?es)"
    using each by (simp cong: map_cong)
  also have "\<dots> = (case map_of ?es d of None \<Rightarrow> [] | Some xs \<Rightarrow> ?F xs)"
    using concat_select [OF des] .
  also have "map_of ?es d = map_of g d"
  proof (cases "map_of g d")
    case None
    then have "d \<notin> fst ` set ?es"
      by (simp add: map_of_eq_None_iff set_es)
    then have "map_of ?es d = None"
      by (simp add: map_of_eq_None_iff)
    with None show ?thesis by simp
  next
    case (Some xs)
    then have "(d, xs) \<in> set ?es"
      by (simp add: set_es map_of_SomeD)
    with des Some show ?thesis by simp
  qed
  also have "(case map_of g d of None \<Rightarrow> [] | Some xs \<Rightarrow> ?F xs) = ?F (versions_of d history)"
    by (simp add: mg sort_newest_first_def)
  finally show ?thesis .
qed

lemma trimSession_history:
  assumes "trimSession s = Inr t"
  shows "versions_of d (documentHistory t)
           = sort_oldest_first (take MAX_VERSIONS_PER_DOC (sort_newest_first (versions_of d (documentHistory s))))"
    and "sorted (map DocVersion.timestamp (documentHistory t))"
    and "Session.id' t = Session.id' s"
proof -
  show "Session.id' t = Session.id' s"
    using assms by (auto simp: trimSession_def Let_def split: if_splits sum.splits)
  show "sorted (map DocVersion.timestamp (documentHistory t))"
    using assms by (auto simp: trimSession_def Let_def sort_oldest_first_def split: if_splits sum.splits)
  show "versions_of d (documentHistory t)
           = sort_oldest_first (take MAX_VERSIONS_PER_DOC (sort_newest_first (versions_of d (documentHistory s))))"
  proof (cases "documentHistory s = []")
    case True
    with assms have "documentHistory t = []"
      by (auto simp: trimSession_def Let_def)
    with True show ?thesis
      by (simp add: versions_of_def sort_oldest_first_def sort_newest_first_def)
  next
    case False
    with assms obtain g where g: "group_versions [] (documentHistory s) = Inr g"
      and t: "documentHistory t = sort_oldest_first (keep_recent g)"
      by (auto simp: trimSession_def Let_def split: sum.splits)
    from group_versions_grouped [OF grouped_Nil g] have "grouped g (documentHistory s)"
      by simp
    from versions_of_keep_recent [OF this, of d] show ?thesis
      by (simp add: t versions_of_def sort_oldest_first_def filter_sort)
  qed
qed

lemma newest_first_split:
  "\<forall>u\<in>set (drop n (sort_newest_first xs)). \<forall>v\<in>set (take n (sort_newest_first xs)).
     DocVersion.timestamp u \<le> DocVersion.timestamp v"
proof -
  let ?k = "\<lambda>v. - DocVersion.timestamp v"
  let ?ys = "sort_newest_first xs"
  have "sorted (map ?k ?ys)"
    by (simp add: sort_newest_first_def)
  then have "sorted (map ?k (take n ?ys) @ map ?k (drop n ?ys))"
    by (metis append_take_drop_id map_append)
  then have "\<forall>a\<in>set (map ?k (take n ?ys)). \<forall>b\<in>set (map ?k (drop n ?ys)). a \<le> b"
    by (simp add: sorted_append)
  then show ?thesis
    by fastforce
qed

text \<open>
  Claim C5. After a successful \<^verbatim>\<open>saveSession\<close> the stored session's history is in ascending
  order of timestamp and holds, for every document type, the versions among that type's
  that are most recent by timestamp, at most three of them: as many as there were when
  fewer than three, and every version left out is no newer than every version kept. Five
  versions of one type leave three. The session passed in stays as it is: the function
  returns the new store only.
\<close>

theorem saved_history_is_trimmed:
  assumes "saveSession True s st = Inr st'"
  shows "\<exists>t. map_of st' (Session.id' s) = Some t
           \<and> sorted (map DocVersion.timestamp (documentHistory t))
           \<and> (\<forall>d. length (versions_of d (documentHistory t))
                    = min MAX_VERSIONS_PER_DOC (length (versions_of d (documentHistory s)))
                  \<and> length (versions_of d (documentHistory t)) \<le> 3
                  \<and> (\<exists>dropped.
                        mset (versions_of d (documentHistory s))
                          = mset (versions_of d (documentHistory t)) + mset dropped
                        \<and> (\<forall>u\<in>set dropped. \<forall>v\<in>set (versions_of d (documentHistory t)).
                             DocVersion.timestamp u \<le> DocVersion.timestamp v)))"
proof -
  from assms obtain t where t: "trimSession s = Inr t"
    and st': "st' = AList.update (Session.id' t) t st"
    by (auto simp: saveSession_def split: sum.splits)
  note h = trimSession_history [OF t]
  have stored: "map_of st' (Session.id' s) = Some t"
    by (simp add: st' h(3) update_conv')
  have per_doc: "length (versions_of d (documentHistory t))
                    = min MAX_VERSIONS_PER_DOC (length (versions_of d (documentHistory s)))
                  \<and> length (versions_of d (documentHistory t)) \<le> 3
                  \<and> (\<exists>dropped.
                        mset (versions_of d (documentHistory s))
                          = mset (versions_of d (documentHistory t)) + mset dropped
                        \<and> (\<forall>u\<in>set dropped. \<forall>v\<in>set (versions_of d (documentHistory t)).
                             DocVersion.timestamp u \<le> DocVersion.timestamp v))" for d
  proof -
    let ?D = "versions_of d (documentHistory s)"
    let ?kept = "take MAX_VERSIONS_PER_DOC (sort_newest_first ?D)"
    let ?dropped = "drop MAX_VERSIONS_PER_DOC (sort_newest_first ?D)"
    have k: "versions_of d (documentHistory t) = sort_oldest_first ?kept"
      using h(1) .
    have l: "length (versions_of d (documentHistory t)) = min MAX_VERSIONS_PER_DOC (length ?D)"
      by (simp add: k sort_oldest_first_def sort_newest_first_def min.commute)
    have "mset ?D = mset (sort_newest_first ?D)"
      by (simp add: sort_newest_first_def)
    also have "\<dots> = mset ?kept + mset ?dropped"
      by (metis append_take_drop_id mset_append)
    also have "mset ?kept = mset (versions_of d (documentHistory t))"
      by (simp add: k sort_oldest_first_def)
    finally have m: "mset ?D = mset (versions_of d (documentHistory t)) + mset ?dropped" .
    have o: "\<forall>u\<in>set ?dropped. \<forall>v\<in>set (versions_of d (documentHistory t)).
               DocVersion.timestamp u \<le> DocVersion.timestamp v"
      using newest_first_split [of MAX_VERSIONS_PER_DOC ?D]
      by (simp add: k sort_oldest_first_def)
    from l have "length (versions_of d (documentHistory t)) \<le> 3"
      by (simp add: MAX_VERSIONS_PER_DOC_def)
    with l m o show ?thesis
      by blast
  qed
  from stored h(2) per_doc show ?thesis
    by blast
qed

theorem saved_history_is_trimmed_witness:
  "length (versions_of (js ''PRD'') (documentHistory five_versions)) = 5
   \<and> saveSession True five_versions []
       = Inr [(js ''session-1'',
               five_versions\<lparr>documentHistory :=
                 [sample_version ''a'' 50, sample_version ''e'' 70, sample_version ''c'' 90]\<rparr>)]
   \<and> (\<exists>t. map_of [(js ''session-1'',
               five_versions\<lparr>documentHistory :=
                 [sample_version ''a'' 50, sample_version ''e'' 70, sample_version ''c'' 90]\<rparr>)]
              (Session.id' five_versions) = Some t
         \<and> sorted (map DocVersion.timestamp (documentHistory t))
         \<and> length (versions_of (js ''PRD'') (documentHistory t)) = 3)"
proof -
  let ?st = "[(js ''session-1'',
               five_versions\<lparr>documentHistory :=
                 [sample_version ''a'' 50, sample_version ''e'' 70, sample_version ''c'' 90]\<rparr>)]"
  have n: "length (versions_of (js ''PRD'') (documentHistory five_versions)) = 5"
    by (simp add: versions_of_def sample_defs)
  have h: "saveSession True five_versions [] = Inr ?st"
    by (simp add: saveSession_def trimSession_def trim_messages_def MAX_MESSAGES_def
        MAX_VERSIONS_PER_DOC_def push_version_def keep_recent_def sort_newest_first_def
        sort_oldest_first_def object_prototype_keys_def object_defs sample_defs js_def Let_def)
  from saved_history_is_trimmed [OF h] obtain t where
    t: "map_of ?st (Session.id' five_versions) = Some t"
      "sorted (map DocVersion.timestamp (documentHistory t))"
      "length (versions_of (js ''PRD'') (documentHistory t))
         = min MAX_VERSIONS_PER_DOC (length (versions_of (js ''PRD'') (documentHistory five_versions)))"
    by blast
  from t(3) n have "length (versions_of (js ''PRD'') (documentHistory t)) = 3"
    by (simp add: MAX_VERSIONS_PER_DOC_def)
  with n h t(1,2) show ?thesis
    by blast
qed

end
